theory Spec2Isabelle
  imports Main "HOL-Library.Monad_Syntax"
begin

section \<open>Data model\<close>

text \<open>
  Addresses and \<open>size_t\<close> values are natural numbers; every \<open>size_t\<close> operation of the
  source that can wrap is written with its \<open>mod 2 ^ 64\<close>. A pointer is an optional
  address, \<open>None\<close> being \<open>NULL\<close>. A function of the source that dereferences a pointer
  returns an option: \<open>None\<close> stands for the dereference of \<open>NULL\<close> (the process
  faults) or for a list traversal that never ends.
\<close>

type_synonym addr = nat
type_synonym ptr = "addr option"

text \<open>\<open>struct mem_block\<close> of allocator.h (packed, 100 bytes with its padding).\<close>

record mem_block =
  name :: string
  size_b :: nat
  free_b :: bool
  region_id :: nat
  next_b :: ptr
  prev_b :: ptr

text \<open>
  The globals of allocator.c together with the memory they point into: \<open>heap\<close> reads
  the bytes at an address as a block header, \<open>mem\<close> holds the bytes of the data areas,
  \<open>mapped\<close> is the set of addresses the operating system has mapped for the process
  and \<open>stderr\<close> collects what \<open>perror\<close> prints. The header fields and the data
  bytes are kept apart: \<open>mem\<close> says nothing about the bytes that a block header
  occupies.
\<close>

record state =
  heap :: "addr \<Rightarrow> mem_block"
  mem :: "addr \<Rightarrow> nat"
  mapped :: "addr set"
  g_head :: ptr
  g_tail :: ptr
  g_allocations :: nat
  g_regions :: nat
  g_splits :: nat
  stderr :: "string list"

text \<open>
  What the process environment and the operating system answer during one call of the
  API: the value of \<open>ALLOCATOR_ALGORITHM\<close>, whether \<open>ALLOCATOR_SCRIBBLE\<close> is set to 1,
  \<open>getpagesize()\<close>, the result of \<open>mmap\<close> (\<open>None\<close> is \<open>MAP_FAILED\<close>) and whether
  \<open>munmap\<close> succeeds. One call of the API makes at most one of the two system calls.
\<close>

record os_env =
  algorithm :: "string option"
  scribble :: bool
  page_size :: nat
  mmap_ret :: ptr
  munmap_ok :: bool

definition header_size :: nat where
  "header_size = 100"

definition ALIGN_SIZE :: nat where
  "ALIGN_SIZE = 8"

definition BLOCK_ALIGN :: nat where
  "BLOCK_ALIGN = 4"

definition INT_MAX :: nat where
  "INT_MAX = 2147483647"

definition INT_MIN :: int where
  "INT_MIN = - 2147483648"

definition init :: state where
  "init = \<lparr>heap = (\<lambda>_. \<lparr>name = [], size_b = 0, free_b = False, region_id = 0,
                         next_b = None, prev_b = None\<rparr>),
           mem = (\<lambda>_. 0), mapped = {}, g_head = None, g_tail = None,
           g_allocations = 0, g_regions = 0, g_splits = 0, stderr = []\<rparr>"

subsection \<open>Field access through a block pointer\<close>

definition nxt :: "state \<Rightarrow> addr \<Rightarrow> ptr" where
  "nxt s a = next_b (heap s a)"

definition prv :: "state \<Rightarrow> addr \<Rightarrow> ptr" where
  "prv s a = prev_b (heap s a)"

definition set_next :: "addr \<Rightarrow> ptr \<Rightarrow> state \<Rightarrow> state" where
  "set_next a v s = s\<lparr>heap := (heap s)(a := (heap s a)\<lparr>next_b := v\<rparr>)\<rparr>"

definition set_prev :: "addr \<Rightarrow> ptr \<Rightarrow> state \<Rightarrow> state" where
  "set_prev a v s = s\<lparr>heap := (heap s)(a := (heap s a)\<lparr>prev_b := v\<rparr>)\<rparr>"

definition set_size :: "addr \<Rightarrow> nat \<Rightarrow> state \<Rightarrow> state" where
  "set_size a v s = s\<lparr>heap := (heap s)(a := (heap s a)\<lparr>size_b := v\<rparr>)\<rparr>"

definition set_free :: "addr \<Rightarrow> bool \<Rightarrow> state \<Rightarrow> state" where
  "set_free a v s = s\<lparr>heap := (heap s)(a := (heap s a)\<lparr>free_b := v\<rparr>)\<rparr>"

definition set_region :: "addr \<Rightarrow> nat \<Rightarrow> state \<Rightarrow> state" where
  "set_region a v s = s\<lparr>heap := (heap s)(a := (heap s a)\<lparr>region_id := v\<rparr>)\<rparr>"

definition set_name :: "addr \<Rightarrow> string \<Rightarrow> state \<Rightarrow> state" where
  "set_name a v s = s\<lparr>heap := (heap s)(a := (heap s a)\<lparr>name := v\<rparr>)\<rparr>"

text \<open>\<open>p->prev = v\<close> and \<open>p->next = v\<close> where \<open>p\<close> may be \<open>NULL\<close>.\<close>

definition set_prev_at :: "ptr \<Rightarrow> ptr \<Rightarrow> state \<Rightarrow> state option" where
  "set_prev_at p v s = (case p of None \<Rightarrow> None | Some a \<Rightarrow> Some (set_prev a v s))"

definition set_next_at :: "ptr \<Rightarrow> ptr \<Rightarrow> state \<Rightarrow> state option" where
  "set_next_at p v s = (case p of None \<Rightarrow> None | Some a \<Rightarrow> Some (set_next a v s))"

subsection \<open>Formatting the automatic names\<close>

function dec :: "nat \<Rightarrow> string" where
  "dec n = (if n < 10 then [char_of (48 + n)]
            else dec (n div 10) @ [char_of (48 + n mod 10)])"
  by pat_completeness auto
termination
  by (relation "measure id") auto

declare dec.simps [simp del]

text \<open>\<open>snprintf(buf, 32, fmt, n)\<close> keeps at most 31 characters.\<close>

definition snprintf32 :: "string \<Rightarrow> nat \<Rightarrow> string" where
  "snprintf32 pre n = take 31 (pre @ dec n)"

section \<open>Splitting\<close>

text \<open>\<open>b->size - size\<close> in \<open>size_t\<close> arithmetic, as \<open>split_block\<close> and the fit
  strategies compute it.\<close>

definition size_diff :: "state \<Rightarrow> addr \<Rightarrow> nat \<Rightarrow> nat" where
  "size_diff s c sz = (size_b (heap s c) + 2 ^ 64 - sz) mod 2 ^ 64"

definition split_block :: "addr \<Rightarrow> nat \<Rightarrow> state \<Rightarrow> (ptr \<times> state) option" where
  "split_block block sz s =
     (let min_sz = header_size + BLOCK_ALIGN in
      if sz < min_sz then Some (None, s)
      else if free_b (heap s block) = False then Some (None, s)
      else
        let rm_sz = size_diff s block sz in
        if rm_sz < 104 then Some (None, s)
        else do {
          let new_block = (block + sz) mod 2 ^ 64;
          s1 \<leftarrow> (if Some block = g_tail s then
                   Some ((set_next new_block None
                           (set_prev new_block (Some block)
                             (set_next block (Some new_block) s)))\<lparr>g_tail := Some new_block\<rparr>)
                 else do {
                   let t1 = set_next new_block (nxt s block) s;
                   t2 \<leftarrow> set_prev_at (nxt t1 block) (Some new_block) t1;
                   let t3 = set_prev new_block (Some block) t2;
                   Some (set_next block (Some new_block) t3)
                 });
          let s2 = (set_name new_block (snprintf32 ''Split block '' (g_splits s1)) s1)
                     \<lparr>g_splits := (g_splits s1 + 1) mod 2 ^ 64\<rparr>;
          let s3 = set_size new_block rm_sz s2;
          let s4 = set_free new_block True s3;
          let s5 = set_region new_block (region_id (heap s4 block)) s4;
          let s6 = set_size block sz s5;
          Some (Some new_block, s6)
        })"

section \<open>Coalescing\<close>

text \<open>\<open>munmap(block, block->size)\<close> followed by the test of its result.\<close>

definition do_munmap :: "os_env \<Rightarrow> addr \<Rightarrow> state \<Rightarrow> ptr \<times> state" where
  "do_munmap e block s =
     (if munmap_ok e
      then (Some block, s\<lparr>mapped := mapped s - {block ..< block + size_b (heap s block)}\<rparr>)
      else (None, s\<lparr>stderr := stderr s @ [''munmap'']\<rparr>))"

text \<open>First statement of \<open>merge_block\<close>: absorb the next block.\<close>

definition merge_with_next :: "addr \<Rightarrow> state \<Rightarrow> state option" where
  "merge_with_next block s =
     (case nxt s block of
        None \<Rightarrow> Some s
      | Some n \<Rightarrow>
          if free_b (heap s n) = True \<and> region_id (heap s n) = region_id (heap s block) then
            let s1 = set_size block ((size_b (heap s block) + size_b (heap s n)) mod 2 ^ 64) s in
            if nxt s1 block = g_tail s1 then do {
              let s2 = s1\<lparr>g_tail := Some block\<rparr>;
              s3 \<leftarrow> set_prev_at (nxt s2 block) None s2;
              Some (set_next block None s3)
            } else do {
              nn \<leftarrow> map_option (nxt s1) (nxt s1 block);
              let s2 = set_next block nn s1;
              set_prev_at (nxt s2 block) (Some block) s2
            }
          else Some s)"

text \<open>Second statement of \<open>merge_block\<close>: let the previous block absorb this one.\<close>

definition merge_with_prev :: "addr \<Rightarrow> state \<Rightarrow> state option" where
  "merge_with_prev block s =
     (case prv s block of
        None \<Rightarrow> Some s
      | Some p \<Rightarrow>
          if free_b (heap s p) = True \<and> region_id (heap s p) = region_id (heap s block) then
            let s1 = set_size p ((size_b (heap s p) + size_b (heap s block)) mod 2 ^ 64) s in
            if Some block = g_tail s1 then do {
              let s2 = s1\<lparr>g_tail := prv s1 block\<rparr>;
              s3 \<leftarrow> set_next_at (prv s2 block) None s2;
              Some (set_prev block None s3)
            } else do {
              s2 \<leftarrow> set_next_at (prv s1 block) (nxt s1 block) s1;
              pn \<leftarrow> Option.bind (prv s2 block) (nxt s2);
              Some (set_prev pn (prv s2 block) s2)
            }
          else Some s)"

text \<open>The chain of tests that ends \<open>merge_block\<close>: unlink and unmap a region's only block.\<close>

definition next_other_region :: "state \<Rightarrow> addr \<Rightarrow> bool" where
  "next_other_region s block =
     (case nxt s block of None \<Rightarrow> False
      | Some n \<Rightarrow> region_id (heap s n) \<noteq> region_id (heap s block))"

definition prev_other_region :: "state \<Rightarrow> addr \<Rightarrow> bool" where
  "prev_other_region s block =
     (case prv s block of None \<Rightarrow> False
      | Some p \<Rightarrow> region_id (heap s p) \<noteq> region_id (heap s block))"

definition release_region :: "os_env \<Rightarrow> addr \<Rightarrow> state \<Rightarrow> (ptr \<times> state) option" where
  "release_region e block s =
     (if Some block = g_head s \<and> Some block = g_tail s then
        Some (do_munmap e block (s\<lparr>g_head := None, g_tail := None\<rparr>))
      else if next_other_region s block \<and> prev_other_region s block then do {
        s1 \<leftarrow> set_next_at (prv s block) (nxt s block) s;
        s2 \<leftarrow> set_prev_at (nxt s1 block) (prv s1 block) s1;
        Some (do_munmap e block s2)
      }
      else if prv s block \<noteq> None \<and> Some block = g_tail s \<and> prev_other_region s block then do {
        let s1 = s\<lparr>g_tail := prv s block\<rparr>;
        s2 \<leftarrow> set_next_at (prv s1 block) None s1;
        let s3 = set_prev block None s2;
        Some (do_munmap e block s3)
      }
      else if nxt s block \<noteq> None \<and> Some block = g_head s \<and> next_other_region s block then do {
        let s1 = s\<lparr>g_head := nxt s block\<rparr>;
        s2 \<leftarrow> set_prev_at (nxt s1 block) None s1;
        let s3 = set_next block None s2;
        Some (do_munmap e block s3)
      }
      else Some (Some block, s))"

definition merge_block :: "os_env \<Rightarrow> addr \<Rightarrow> state \<Rightarrow> (ptr \<times> state) option" where
  "merge_block e block s = do {
     s1 \<leftarrow> merge_with_next block s;
     s2 \<leftarrow> merge_with_prev block s1;
     release_region e block s2
   }"

section \<open>Fit strategies\<close>

text \<open>
  The three searches walk the \<open>next\<close> pointers from \<open>g_head\<close> until \<open>NULL\<close>; on a
  cyclic chain the loop of the source does not end, which is the value \<open>None\<close> here.
\<close>

partial_function (option) first_fit_from :: "state \<Rightarrow> nat \<Rightarrow> ptr \<Rightarrow> ptr option" where
  "first_fit_from s sz current =
     (case current of
        None \<Rightarrow> Some None
      | Some c \<Rightarrow>
          if sz \<le> size_b (heap s c) \<and> free_b (heap s c) = True then Some (Some c)
          else first_fit_from s sz (nxt s c))"

definition first_fit :: "state \<Rightarrow> nat \<Rightarrow> ptr option" where
  "first_fit s sz = first_fit_from s sz (g_head s)"

text \<open>The value of \<open>(ssize_t) x\<close> for a \<open>size_t\<close> value \<open>x\<close>.\<close>

definition ssize :: "nat \<Rightarrow> int" where
  "ssize x = (if x < 2 ^ 63 then int x else int x - 2 ^ 64)"

partial_function (option) worst_fit_from ::
  "state \<Rightarrow> nat \<Rightarrow> ptr \<Rightarrow> ptr \<Rightarrow> int \<Rightarrow> ptr option" where
  "worst_fit_from s sz current worst worst_size =
     (case current of
        None \<Rightarrow> Some worst
      | Some c \<Rightarrow>
          if sz \<le> size_b (heap s c) \<and> free_b (heap s c) = True
             \<and> ssize (size_diff s c sz) > worst_size
          then worst_fit_from s sz (nxt s c) (Some c) (ssize (size_diff s c sz))
          else worst_fit_from s sz (nxt s c) worst worst_size)"

definition worst_fit :: "state \<Rightarrow> nat \<Rightarrow> ptr option" where
  "worst_fit s sz = worst_fit_from s sz (g_head s) None INT_MIN"

text \<open>
  In \<open>best_fit\<close> the bound \<open>best_size\<close> is a \<open>size_t\<close>, so the comparison
  \<open>diff < best_size\<close> converts \<open>diff\<close> back to \<open>size_t\<close>: both sides are unsigned.
\<close>

partial_function (option) best_fit_from ::
  "state \<Rightarrow> nat \<Rightarrow> ptr \<Rightarrow> ptr \<Rightarrow> nat \<Rightarrow> ptr option" where
  "best_fit_from s sz current best best_size =
     (case current of
        None \<Rightarrow> Some best
      | Some c \<Rightarrow>
          if sz \<le> size_b (heap s c) \<and> free_b (heap s c) = True
             \<and> size_diff s c sz < best_size
          then best_fit_from s sz (nxt s c) (Some c) (size_diff s c sz)
          else best_fit_from s sz (nxt s c) best best_size)"

definition best_fit :: "state \<Rightarrow> nat \<Rightarrow> ptr option" where
  "best_fit s sz = best_fit_from s sz (g_head s) None INT_MAX"

definition reuse :: "os_env \<Rightarrow> nat \<Rightarrow> state \<Rightarrow> (ptr \<times> state) option" where
  "reuse e sz s = do {
     let algo = (case algorithm e of None \<Rightarrow> ''first_fit'' | Some a \<Rightarrow> a);
     reused_block \<leftarrow> (if algo = ''first_fit'' then first_fit s sz
                      else if algo = ''best_fit'' then best_fit s sz
                      else if algo = ''worst_fit'' then worst_fit s sz
                      else Some None);
     case reused_block of
       None \<Rightarrow> Some (None, s)
     | Some b \<Rightarrow> do { (r, s1) \<leftarrow> split_block b sz s; Some (Some b, s1) }
   }"

section \<open>The allocation API\<close>

text \<open>
  \<open>memset\<close>, \<open>memcpy\<close> and a single store by the caller. An access to an address
  that is not mapped (or past the end of the address space) kills the process; a length
  of 0 accesses nothing. \<open>memcpy\<close> reads every source byte before the state changes.
\<close>

definition accessible :: "state \<Rightarrow> addr \<Rightarrow> nat \<Rightarrow> bool" where
  "accessible s a n \<longleftrightarrow> a + n \<le> 2 ^ 64 \<and> {a ..< a + n} \<subseteq> mapped s"

definition memset :: "ptr \<Rightarrow> nat \<Rightarrow> nat \<Rightarrow> state \<Rightarrow> state option" where
  "memset p c n s =
     (if n = 0 then Some s
      else case p of
        None \<Rightarrow> None
      | Some a \<Rightarrow>
          if accessible s a n
          then Some (s\<lparr>mem := (\<lambda>x. if a \<le> x \<and> x < a + n then c else mem s x)\<rparr>)
          else None)"

definition memcpy :: "ptr \<Rightarrow> ptr \<Rightarrow> nat \<Rightarrow> state \<Rightarrow> state option" where
  "memcpy dst src n s =
     (if n = 0 then Some s
      else case (dst, src) of
        (Some d, Some a) \<Rightarrow>
          if accessible s d n \<and> accessible s a n
          then Some (s\<lparr>mem := (\<lambda>x. if d \<le> x \<and> x < d + n then mem s (a + (x - d))
                                  else mem s x)\<rparr>)
          else None
      | _ \<Rightarrow> None)"

definition store :: "addr \<Rightarrow> nat \<Rightarrow> state \<Rightarrow> state option" where
  "store a b s = (if a \<in> mapped s then Some (s\<lparr>mem := (mem s)(a := b)\<rparr>) else None)"

text \<open>\<open>(struct mem_block *) p + 1\<close> and \<open>(struct mem_block *) p - 1\<close>.\<close>

definition data_of :: "addr \<Rightarrow> addr" where
  "data_of b = (b + header_size) mod 2 ^ 64"

definition block_of :: "addr \<Rightarrow> addr" where
  "block_of p = (p + 2 ^ 64 - header_size) mod 2 ^ 64"

definition aligned :: "nat \<Rightarrow> nat" where
  "aligned n =
     (let total_size = (n + header_size) mod 2 ^ 64 in
      if total_size mod ALIGN_SIZE \<noteq> 0
      then (total_size + ALIGN_SIZE - total_size mod ALIGN_SIZE) mod 2 ^ 64
      else total_size)"

definition region_size_for :: "os_env \<Rightarrow> nat \<Rightarrow> nat" where
  "region_size_for e aligned_size =
     (let num_pages = aligned_size div page_size e;
          num_pages = (if aligned_size mod page_size e \<noteq> 0 then num_pages + 1 else num_pages)
      in (num_pages * page_size e) mod 2 ^ 64)"

text \<open>The statements of \<open>malloc\<close> between the successful \<open>mmap\<close> and the call of
  \<open>split_block\<close>: name the new block, give it the next region identifier, link it as
  the new tail, mark it free with the size of the region.\<close>

definition link_region :: "addr \<Rightarrow> nat \<Rightarrow> state \<Rightarrow> state option" where
  "link_region new_block region_size s = do {
     let m0 = s\<lparr>mapped := mapped s \<union> {new_block ..< new_block + region_size}\<rparr>;
     let m1 = (set_name new_block (snprintf32 ''Allocation '' (g_allocations m0)) m0)
                \<lparr>g_allocations := (g_allocations m0 + 1) mod 2 ^ 64\<rparr>;
     let m2 = (set_region new_block (g_regions m1) m1)
                \<lparr>g_regions := (g_regions m1 + 1) mod 2 ^ 64\<rparr>;
     m3 \<leftarrow> (if g_head m2 = None \<and> g_tail m2 = None then
              Some (set_prev new_block None
                     (m2\<lparr>g_head := Some new_block, g_tail := Some new_block\<rparr>))
            else do {
              t1 \<leftarrow> set_next_at (g_tail m2) (Some new_block) m2;
              let t2 = set_prev new_block (g_tail t1) t1;
              Some (t2\<lparr>g_tail := Some new_block\<rparr>)
            });
     let m4 = set_free new_block True m3;
     let m5 = set_size new_block region_size m4;
     Some (set_next new_block None m5)
   }"

text \<open>The part of \<open>malloc\<close> that runs when no block was reused: map a region, link it as
  the new tail, trim it with \<open>split_block\<close>.\<close>

definition map_region :: "os_env \<Rightarrow> nat \<Rightarrow> nat \<Rightarrow> state \<Rightarrow> (ptr \<times> state) option" where
  "map_region e n aligned_size s =
     (if page_size e = 0 then None
      else
        let region_size = region_size_for e aligned_size in
        case mmap_ret e of
          None \<Rightarrow> Some (None, s\<lparr>stderr := stderr s @ [''mmap'']\<rparr>)
        | Some new_block \<Rightarrow> do {
            m6 \<leftarrow> link_region new_block region_size s;
            (r, m7) \<leftarrow> split_block new_block aligned_size m6;
            let m8 = set_free new_block False m7;
            m9 \<leftarrow> (if scribble e then memset (Some (data_of new_block)) 170 n m8 else Some m8);
            Some (Some (data_of new_block), m9)
          })"

definition malloc :: "os_env \<Rightarrow> nat \<Rightarrow> state \<Rightarrow> (ptr \<times> state) option" where
  "malloc e n s = do {
     let aligned_size = aligned n;
     (reused_block, s1) \<leftarrow> reuse e aligned_size s;
     (case reused_block of
        Some b \<Rightarrow> do {
          let s2 = set_free b False s1;
          s3 \<leftarrow> (if scribble e then memset (Some (data_of b)) 170 n s2 else Some s2);
          Some (Some (data_of b), s3)
        }
      | None \<Rightarrow> map_region e n aligned_size s1)
   }"

text \<open>
  \<open>strcpy(new_block->name, name)\<close> in \<open>malloc_name\<close> copies the characters of the name
  and the terminating 0 with no regard to the 32 bytes of the field. The bytes after
  the 32nd land on the fields that follow in the packed header: \<open>size\<close> at offset 32
  (8 bytes, least significant first), \<open>free\<close> at 40, \<open>region_id\<close> at 41, \<open>next\<close> at
  49, \<open>prev\<close> at 57, the padding from 65 to 99, and from offset 100 on the data area.
  A \<open>bool\<close> is taken as true when its byte is not 0.
\<close>

definition put_byte :: "nat \<Rightarrow> nat \<Rightarrow> nat \<Rightarrow> nat" where
  "put_byte v k b = v - (v div 256 ^ k mod 256) * 256 ^ k + b * 256 ^ k"

definition ptr_val :: "ptr \<Rightarrow> nat" where
  "ptr_val p = (case p of None \<Rightarrow> 0 | Some a \<Rightarrow> a)"

definition val_ptr :: "nat \<Rightarrow> ptr" where
  "val_ptr v = (if v = 0 then None else Some v)"

definition poke_header :: "addr \<Rightarrow> nat \<Rightarrow> nat \<Rightarrow> state \<Rightarrow> state option" where
  "poke_header block k b s =
     (if k < 32 then Some s
      else if k < 40 then
        Some (set_size block (put_byte (size_b (heap s block)) (k - 32) b) s)
      else if k = 40 then Some (set_free block (b \<noteq> 0) s)
      else if k < 49 then
        Some (set_region block (put_byte (region_id (heap s block)) (k - 41) b) s)
      else if k < 57 then
        Some (set_next block (val_ptr (put_byte (ptr_val (next_b (heap s block))) (k - 49) b)) s)
      else if k < 65 then
        Some (set_prev block (val_ptr (put_byte (ptr_val (prev_b (heap s block))) (k - 57) b)) s)
      else if k < 100 then Some s
      else store ((block + k) mod 2 ^ 64) b s)"

fun poke_from :: "addr \<Rightarrow> nat \<Rightarrow> nat list \<Rightarrow> state \<Rightarrow> state option" where
  "poke_from block k [] s = Some s"
| "poke_from block k (b # bs) s = do {
     s1 \<leftarrow> poke_header block k b s;
     poke_from block (k + 1) bs s1
   }"

definition strcpy_name :: "addr \<Rightarrow> string \<Rightarrow> state \<Rightarrow> state option" where
  "strcpy_name block nm s =
     (let cs = takeWhile (\<lambda>c. c \<noteq> CHR 0x00) nm in
      if length cs < 32 then Some (set_name block cs s)
      else poke_from block 32 (map of_char (drop 32 cs) @ [0])
             (set_name block (take 32 cs) s))"

definition malloc_name :: "os_env \<Rightarrow> nat \<Rightarrow> string \<Rightarrow> state \<Rightarrow> (ptr \<times> state) option" where
  "malloc_name e n nm s = do {
     (alloc, s1) \<leftarrow> malloc e n s;
     case alloc of
       None \<Rightarrow> Some (None, s1)
     | Some p \<Rightarrow> do {
         s2 \<leftarrow> strcpy_name (block_of p) nm s1;
         Some (Some p, s2)
       }
   }"

definition free :: "os_env \<Rightarrow> ptr \<Rightarrow> state \<Rightarrow> state option" where
  "free e p s =
     (case p of
        None \<Rightarrow> Some s
      | Some a \<Rightarrow> do {
          let block = block_of a;
          let s1 = set_free block True s;
          (r, s2) \<leftarrow> merge_block e block s1;
          Some s2
        })"

definition calloc :: "os_env \<Rightarrow> nat \<Rightarrow> nat \<Rightarrow> state \<Rightarrow> (ptr \<times> state) option" where
  "calloc e nmemb n s = do {
     (mem_block, s1) \<leftarrow> malloc e ((nmemb * n) mod 2 ^ 64) s;
     s2 \<leftarrow> memset mem_block 0 ((nmemb * n) mod 2 ^ 64) s1;
     Some (mem_block, s2)
   }"

definition realloc :: "os_env \<Rightarrow> ptr \<Rightarrow> nat \<Rightarrow> state \<Rightarrow> (ptr \<times> state) option" where
  "realloc e p n s =
     (case p of
        None \<Rightarrow> malloc e n s
      | Some a \<Rightarrow>
          if n = 0 then do { s1 \<leftarrow> free e (Some a) s; Some (None, s1) }
          else do {
            (block, s1) \<leftarrow> malloc e n s;
            s2 \<leftarrow> memcpy block (Some a) n s1;
            Some (block, s2)
          })"

section \<open>The tracked list and its invariants\<close>

text \<open>
  \<open>dll h pp p xs l q\<close>: following \<open>next\<close> from \<open>p\<close> visits exactly the addresses \<open>xs\<close>
  and arrives at \<open>q\<close>; every \<open>prev\<close> points one step back, the first one to \<open>pp\<close>;
  \<open>l\<close> is the last address visited (\<open>pp\<close> when \<open>xs\<close> is empty).
\<close>

primrec dll :: "(addr \<Rightarrow> mem_block) \<Rightarrow> ptr \<Rightarrow> ptr \<Rightarrow> addr list \<Rightarrow> ptr \<Rightarrow> ptr \<Rightarrow> bool" where
  "dll h pp p [] l q \<longleftrightarrow> p = q \<and> l = pp"
| "dll h pp p (x # xs) l q \<longleftrightarrow>
     p = Some x \<and> prev_b (h x) = pp \<and> dll h (Some x) (next_b (h x)) xs l q"

text \<open>The blocks tracked by the allocator are \<open>xs\<close>, from \<open>g_head\<close> to \<open>g_tail\<close>.\<close>

definition chain :: "state \<Rightarrow> addr list \<Rightarrow> bool" where
  "chain s xs \<longleftrightarrow> dll (heap s) None (g_head s) xs (g_tail s) None \<and> distinct xs"

text \<open>What the invariants need of a block: its address, size, region and free flag.\<close>

record blk =
  b_at :: addr
  b_len :: nat
  b_reg :: nat
  b_free :: bool

definition view :: "state \<Rightarrow> addr \<Rightarrow> blk" where
  "view s x = \<lparr>b_at = x, b_len = size_b (heap s x), b_reg = region_id (heap s x),
               b_free = free_b (heap s x)\<rparr>"

definition b_end :: "blk \<Rightarrow> nat" where
  "b_end b = b_at b + b_len b"

text \<open>A block holds at least a header and the minimal payload, lies inside the address
  space (not at address 0) and inside mapped memory, and its region identifier has been
  issued.\<close>

definition fits_memory :: "nat \<Rightarrow> addr set \<Rightarrow> blk \<Rightarrow> bool" where
  "fits_memory G M b \<longleftrightarrow>
     0 < b_at b \<and> header_size + BLOCK_ALIGN \<le> b_len b \<and> b_end b \<le> 2 ^ 64
     \<and> b_reg b < G \<and> {b_at b ..< b_end b} \<subseteq> M"

text \<open>Neighbours of one region touch.\<close>

definition contiguous :: "blk \<Rightarrow> blk \<Rightarrow> bool" where
  "contiguous x y \<longleftrightarrow> (b_reg x = b_reg y \<longrightarrow> b_at y = b_end x)"

text \<open>Two blocks, \<open>x\<close> before \<open>y\<close> in the list, do not overlap; inside one region the
  earlier block lies below the later one.\<close>

definition apart :: "blk \<Rightarrow> blk \<Rightarrow> bool" where
  "apart x y \<longleftrightarrow> b_end x \<le> b_at y \<or> (b_reg x \<noteq> b_reg y \<and> b_end y \<le> b_at x)"

definition good :: "nat \<Rightarrow> addr set \<Rightarrow> blk list \<Rightarrow> bool" where
  "good G M bs \<longleftrightarrow>
     list_all (fits_memory G M) bs \<and> successively contiguous bs
     \<and> sorted_wrt (\<lambda>x y. b_reg x \<le> b_reg y) bs \<and> sorted_wrt apart bs"


text \<open>Neighbours \<open>x\<close>, \<open>y\<close> that are not two free blocks of one region.\<close>

definition not_both_free :: "blk \<Rightarrow> blk \<Rightarrow> bool" where
  "not_both_free x y \<longleftrightarrow> (b_reg x = b_reg y \<longrightarrow> \<not> (b_free x \<and> b_free y))"

definition packed :: "blk list \<Rightarrow> bool" where
  "packed bs \<longleftrightarrow> successively not_both_free bs"

text \<open>
  How a release changes the list: no block is added, the free flags of the blocks that
  stay are kept, the blocks that leave were free, and an ascending list stays
  ascending.
\<close>

definition shrunk :: "state \<Rightarrow> addr list \<Rightarrow> state \<Rightarrow> addr list \<Rightarrow> bool" where
  "shrunk s xs s' xs' \<longleftrightarrow>
     set xs' \<subseteq> set xs
     \<and> (\<forall>x \<in> set xs'. free_b (heap s' x) = free_b (heap s x))
     \<and> (\<forall>x \<in> set xs - set xs'. free_b (heap s x))
     \<and> (sorted_wrt (<) xs \<longrightarrow> sorted_wrt (<) xs')
     \<and> mem s' = mem s \<and> g_regions s' = g_regions s"

definition wf :: "state \<Rightarrow> addr list \<Rightarrow> bool" where
  "wf s xs \<longleftrightarrow> chain s xs \<and> good (g_regions s) (mapped s) (map (view s) xs)"

text \<open>The test that the three fit strategies apply to a candidate: free and large
  enough for the request.\<close>

definition fits :: "state \<Rightarrow> nat \<Rightarrow> addr \<Rightarrow> bool" where
  "fits s sz c \<longleftrightarrow> sz \<le> size_b (heap s c) \<and> free_b (heap s c)"

text \<open>The pointers handed out and not yet released are the data areas of the blocks in
  use.\<close>

definition live_ok :: "state \<Rightarrow> addr list \<Rightarrow> addr set \<Rightarrow> bool" where
  "live_ok s xs live \<longleftrightarrow> live = data_of ` {x \<in> set xs. \<not> free_b (heap s x)}"

text \<open>The invariant at the observation points, between two calls of the API. With
  \<open>asc\<close> it includes the address order of the list.\<close>

definition inv :: "bool \<Rightarrow> state \<times> addr set \<Rightarrow> addr list \<Rightarrow> bool" where
  "inv asc c xs \<longleftrightarrow>
     wf (fst c) xs \<and> packed (map (view (fst c)) xs) \<and> live_ok (fst c) xs (snd c)
     \<and> (asc \<longrightarrow> sorted_wrt (<) xs)"

text \<open>Claim C1 as a predicate: \<open>xs\<close> is the doubly-linked chain from \<open>g_head\<close> to
  \<open>g_tail\<close>, strictly increasing in address, so that the head is its lowest and the
  tail its highest address.\<close>

definition address_ordered :: "state \<Rightarrow> addr list \<Rightarrow> bool" where
  "address_ordered s xs \<longleftrightarrow>
     chain s xs \<and> sorted_wrt (<) xs
     \<and> (\<forall>x \<in> set xs. \<exists>h t. g_head s = Some h \<and> g_tail s = Some t \<and> h \<le> x \<and> x \<le> t)"

text \<open>Claim C2 as a predicate: no two tracked blocks of one region, the second starting
  where the first ends, are both free.\<close>

definition no_adjacent_free :: "state \<Rightarrow> addr list \<Rightarrow> bool" where
  "no_adjacent_free s xs \<longleftrightarrow>
     (\<forall>x \<in> set xs. \<forall>y \<in> set xs.
        y = x + size_b (heap s x) \<and> region_id (heap s x) = region_id (heap s y)
        \<longrightarrow> \<not> (free_b (heap s x) \<and> free_b (heap s y)))"

section \<open>Sequences of calls\<close>

datatype call = Malloc os_env nat | Free os_env ptr

text \<open>A configuration is the allocator state with the set of pointers that \<open>malloc\<close>
  returned and \<open>free\<close> has not received since.\<close>

fun step :: "call \<Rightarrow> state \<times> addr set \<Rightarrow> (state \<times> addr set) option" where
  "step (Malloc e n) (s, live) =
     (case malloc e n s of
        None \<Rightarrow> None
      | Some (r, s') \<Rightarrow> Some (s', live \<union> set_option r))"
| "step (Free e p) (s, live) =
     (case free e p s of
        None \<Rightarrow> None
      | Some s' \<Rightarrow> Some (s', live - set_option p))"

fun run :: "call list \<Rightarrow> state \<times> addr set \<Rightarrow> (state \<times> addr set) option" where
  "run [] c = Some c"
| "run (k # ks) c = (case step k c of None \<Rightarrow> None | Some c' \<Rightarrow> run ks c')"

text \<open>
  What is assumed of the operating system when \<open>malloc n\<close> runs in state \<open>s\<close>: the
  page size is a power of two of at least 104 bytes, and a successful \<open>mmap\<close> of a
  non-empty length returns a range inside the address space, not at address 0, that
  overlaps no existing mapping (\<open>mmap\<close> of length 0 fails). The region counter has not reached its last
  value.
\<close>

definition os_ok :: "os_env \<Rightarrow> nat \<Rightarrow> state \<Rightarrow> bool" where
  "os_ok e n s \<longleftrightarrow>
     header_size + BLOCK_ALIGN \<le> page_size e \<and> page_size e dvd 2 ^ 64
     \<and> g_regions s + 1 < 2 ^ 64
     \<and> (case mmap_ret e of
          None \<Rightarrow> True
        | Some a \<Rightarrow>
            0 < a \<and> 0 < region_size_for e (aligned n)
            \<and> a + region_size_for e (aligned n) \<le> 2 ^ 64
            \<and> {a ..< a + region_size_for e (aligned n)} \<inter> mapped s = {})"

text \<open>The further assumption that \<open>mmap\<close> places a new region above every mapped
  address.\<close>

definition maps_above :: "os_env \<Rightarrow> state \<Rightarrow> bool" where
  "maps_above e s \<longleftrightarrow>
     (case mmap_ret e of None \<Rightarrow> True | Some a \<Rightarrow> \<forall>x \<in> mapped s. x < a)"

text \<open>
  A call is legitimate when the operating system behaves as above and \<open>free\<close> receives
  \<open>NULL\<close> or a pointer that \<open>malloc\<close> returned and that was not released since.
  When the debug fill is on, the requested size with the header and the alignment
  stays inside \<open>size_t\<close>. With \<open>asc\<close> the regions are moreover mapped at ascending
  addresses.
\<close>

fun call_ok :: "bool \<Rightarrow> call \<Rightarrow> state \<times> addr set \<Rightarrow> bool" where
  "call_ok asc (Malloc e n) (s, live) \<longleftrightarrow>
     os_ok e n s \<and> (scribble e \<longrightarrow> n + header_size + ALIGN_SIZE \<le> 2 ^ 64)
     \<and> (asc \<longrightarrow> maps_above e s)"
| "call_ok asc (Free e p) (s, live) \<longleftrightarrow> (case p of None \<Rightarrow> True | Some a \<Rightarrow> a \<in> live)"

fun run_ok :: "bool \<Rightarrow> call list \<Rightarrow> state \<times> addr set \<Rightarrow> bool" where
  "run_ok asc [] c \<longleftrightarrow> True"
| "run_ok asc (k # ks) c \<longleftrightarrow>
     call_ok asc k c \<and> (case step k c of None \<Rightarrow> True | Some c' \<Rightarrow> run_ok asc ks c')"

text \<open>
  A release reaches a call of \<open>munmap\<close> that takes memory from the process: run with an
  operating system whose \<open>munmap\<close> succeeds, it changes the set of mapped addresses.
\<close>

definition unmaps :: "os_env \<Rightarrow> ptr \<Rightarrow> state \<Rightarrow> bool" where
  "unmaps e p s \<longleftrightarrow>
     (case free (e\<lparr>munmap_ok := True\<rparr>) p s of
        None \<Rightarrow> False
      | Some t \<Rightarrow> mapped t \<noteq> mapped s)"

section \<open>Environments of the worked scenarios\<close>

definition env :: "string option \<Rightarrow> ptr \<Rightarrow> bool \<Rightarrow> os_env" where
  "env alg m u = \<lparr>algorithm = alg, scribble = False, page_size = 4096, mmap_ret = m,
                   munmap_ok = u\<rparr>"

section \<open>Reading a field after a write\<close>

lemma set_next_sel [simp]:
  "name (heap (set_next a v s) x) = name (heap s x)"
  "size_b (heap (set_next a v s) x) = size_b (heap s x)"
  "free_b (heap (set_next a v s) x) = free_b (heap s x)"
  "region_id (heap (set_next a v s) x) = region_id (heap s x)"
  "next_b (heap (set_next a v s) x) = (if x = a then v else next_b (heap s x))"
  "prev_b (heap (set_next a v s) x) = prev_b (heap s x)"
  "mem (set_next a v s) = mem s"
  "mapped (set_next a v s) = mapped s"
  "g_head (set_next a v s) = g_head s"
  "g_tail (set_next a v s) = g_tail s"
  "g_allocations (set_next a v s) = g_allocations s"
  "g_regions (set_next a v s) = g_regions s"
  "g_splits (set_next a v s) = g_splits s"
  "stderr (set_next a v s) = stderr s"
  by (simp_all add: set_next_def)

lemma set_prev_sel [simp]:
  "name (heap (set_prev a v s) x) = name (heap s x)"
  "size_b (heap (set_prev a v s) x) = size_b (heap s x)"
  "free_b (heap (set_prev a v s) x) = free_b (heap s x)"
  "region_id (heap (set_prev a v s) x) = region_id (heap s x)"
  "next_b (heap (set_prev a v s) x) = next_b (heap s x)"
  "prev_b (heap (set_prev a v s) x) = (if x = a then v else prev_b (heap s x))"
  "mem (set_prev a v s) = mem s"
  "mapped (set_prev a v s) = mapped s"
  "g_head (set_prev a v s) = g_head s"
  "g_tail (set_prev a v s) = g_tail s"
  "g_allocations (set_prev a v s) = g_allocations s"
  "g_regions (set_prev a v s) = g_regions s"
  "g_splits (set_prev a v s) = g_splits s"
  "stderr (set_prev a v s) = stderr s"
  by (simp_all add: set_prev_def)

lemma set_size_sel [simp]:
  "name (heap (set_size a v s) x) = name (heap s x)"
  "size_b (heap (set_size a v s) x) = (if x = a then v else size_b (heap s x))"
  "free_b (heap (set_size a v s) x) = free_b (heap s x)"
  "region_id (heap (set_size a v s) x) = region_id (heap s x)"
  "next_b (heap (set_size a v s) x) = next_b (heap s x)"
  "prev_b (heap (set_size a v s) x) = prev_b (heap s x)"
  "mem (set_size a v s) = mem s"
  "mapped (set_size a v s) = mapped s"
  "g_head (set_size a v s) = g_head s"
  "g_tail (set_size a v s) = g_tail s"
  "g_allocations (set_size a v s) = g_allocations s"
  "g_regions (set_size a v s) = g_regions s"
  "g_splits (set_size a v s) = g_splits s"
  "stderr (set_size a v s) = stderr s"
  by (simp_all add: set_size_def)

lemma set_free_sel [simp]:
  "name (heap (set_free a v s) x) = name (heap s x)"
  "size_b (heap (set_free a v s) x) = size_b (heap s x)"
  "free_b (heap (set_free a v s) x) = (if x = a then v else free_b (heap s x))"
  "region_id (heap (set_free a v s) x) = region_id (heap s x)"
  "next_b (heap (set_free a v s) x) = next_b (heap s x)"
  "prev_b (heap (set_free a v s) x) = prev_b (heap s x)"
  "mem (set_free a v s) = mem s"
  "mapped (set_free a v s) = mapped s"
  "g_head (set_free a v s) = g_head s"
  "g_tail (set_free a v s) = g_tail s"
  "g_allocations (set_free a v s) = g_allocations s"
  "g_regions (set_free a v s) = g_regions s"
  "g_splits (set_free a v s) = g_splits s"
  "stderr (set_free a v s) = stderr s"
  by (simp_all add: set_free_def)

lemma set_region_sel [simp]:
  "name (heap (set_region a v s) x) = name (heap s x)"
  "size_b (heap (set_region a v s) x) = size_b (heap s x)"
  "free_b (heap (set_region a v s) x) = free_b (heap s x)"
  "region_id (heap (set_region a v s) x) = (if x = a then v else region_id (heap s x))"
  "next_b (heap (set_region a v s) x) = next_b (heap s x)"
  "prev_b (heap (set_region a v s) x) = prev_b (heap s x)"
  "mem (set_region a v s) = mem s"
  "mapped (set_region a v s) = mapped s"
  "g_head (set_region a v s) = g_head s"
  "g_tail (set_region a v s) = g_tail s"
  "g_allocations (set_region a v s) = g_allocations s"
  "g_regions (set_region a v s) = g_regions s"
  "g_splits (set_region a v s) = g_splits s"
  "stderr (set_region a v s) = stderr s"
  by (simp_all add: set_region_def)

lemma set_name_sel [simp]:
  "name (heap (set_name a v s) x) = (if x = a then v else name (heap s x))"
  "size_b (heap (set_name a v s) x) = size_b (heap s x)"
  "free_b (heap (set_name a v s) x) = free_b (heap s x)"
  "region_id (heap (set_name a v s) x) = region_id (heap s x)"
  "next_b (heap (set_name a v s) x) = next_b (heap s x)"
  "prev_b (heap (set_name a v s) x) = prev_b (heap s x)"
  "mem (set_name a v s) = mem s"
  "mapped (set_name a v s) = mapped s"
  "g_head (set_name a v s) = g_head s"
  "g_tail (set_name a v s) = g_tail s"
  "g_allocations (set_name a v s) = g_allocations s"
  "g_regions (set_name a v s) = g_regions s"
  "g_splits (set_name a v s) = g_splits s"
  "stderr (set_name a v s) = stderr s"
  by (simp_all add: set_name_def)

section \<open>Running the model on concrete inputs\<close>

lemmas run_defs = malloc_def reuse_def first_fit_def first_fit_from.simps map_region_def
  link_region_def
  worst_fit_def worst_fit_from.simps best_fit_def best_fit_from.simps size_diff_def ssize_def
  INT_MIN_def INT_MAX_def
  split_block_def aligned_def region_size_for_def header_size_def ALIGN_SIZE_def BLOCK_ALIGN_def
  set_prev_at_def set_next_at_def nxt_def prv_def data_of_def block_of_def
  free_def merge_block_def merge_with_next_def merge_with_prev_def release_region_def
  next_other_region_def prev_other_region_def do_munmap_def
  calloc_def realloc_def malloc_name_def strcpy_name_def poke_header_def put_byte_def
  ptr_val_def val_ptr_def memset_def memcpy_def store_def accessible_def env_def init_def
  Let_def

lemmas ok_defs = os_ok_def maps_above_def chain_def address_ordered_def no_adjacent_free_def

section \<open>Lemmas about the chain\<close>

lemma dll_append:
  "dll h pp p (xs @ ys) l q \<longleftrightarrow> (\<exists>pm m. dll h pp p xs pm m \<and> dll h pm m ys l q)"
  by (induction xs arbitrary: pp p) auto

lemma dll_appendI:
  "dll h pp p xs pm m \<Longrightarrow> dll h pm m ys l q \<Longrightarrow> dll h pp p (xs @ ys) l q"
  by (auto simp: dll_append)

lemma dll_cong:
  "(\<And>x. x \<in> set xs \<Longrightarrow> next_b (h' x) = next_b (h x) \<and> prev_b (h' x) = prev_b (h x))
   \<Longrightarrow> dll h' pp p xs l q = dll h pp p xs l q"
  by (induction xs arbitrary: pp p) auto

lemma dll_last: "dll h pp p xs l q \<Longrightarrow> xs \<noteq> [] \<Longrightarrow> l = Some (last xs)"
  by (induction xs arbitrary: pp p) auto

lemma dll_hd: "dll h pp p xs l q \<Longrightarrow> xs \<noteq> [] \<Longrightarrow> p = Some (hd xs)"
  by (cases xs) auto

lemma dll_snoc:
  "dll h pp p (xs @ [x]) l q \<longleftrightarrow>
     (\<exists>pm. dll h pp p xs pm (Some x) \<and> prev_b (h x) = pm \<and> next_b (h x) = q \<and> l = Some x)"
  by (auto simp: dll_append)

lemma chain_at:
  "chain s (ys @ b # zs) \<longleftrightarrow>
     distinct (ys @ b # zs) \<and>
     dll (heap s) None (g_head s) ys (prev_b (heap s b)) (Some b)
     \<and> dll (heap s) (Some b) (next_b (heap s b)) zs (g_tail s) None"
  by (auto simp: chain_def dll_append)

section \<open>What a split writes\<close>

lemma wrap_sub: "c \<le> a \<Longrightarrow> a < M \<Longrightarrow> (a + M - c) mod M = a - (c::nat)"
proof -
  assume a: "c \<le> a" "a < M"
  then have "a + M - c = (a - c) + M" by arith
  then have "(a + M - c) mod M = ((a - c) + M) mod M" by simp
  also have "\<dots> = (a - c) mod M" by simp
  also have "\<dots> = a - c" using a by simp
  finally show ?thesis .
qed

lemma size_diff_eq:
  "sz \<le> size_b (heap s b) \<Longrightarrow> size_b (heap s b) < 2 ^ 64
   \<Longrightarrow> size_diff s b sz = size_b (heap s b) - sz"
  by (simp add: size_diff_def wrap_sub)

lemma split_block_defined:
  assumes "g_tail s = Some b \<or> (\<exists>n. next_b (heap s b) = Some n)"
  shows "\<exists>r s'. split_block b sz s = Some (r, s')"
  using assms
  by (auto simp: split_block_def Let_def nxt_def set_prev_at_def)

lemma split_block_fields:
  assumes "split_block b sz s = Some (r, s')"
    "free_b (heap s b)" "104 \<le> sz" "sz + 104 \<le> size_b (heap s b)"
    "size_b (heap s b) < 2 ^ 64" "b + sz < 2 ^ 64"
  shows "r = Some (b + sz)"
    and "next_b (heap s' x) = (if x = b then Some (b + sz)
                                   else if x = b + sz
                                     then (if g_tail s = Some b then None else next_b (heap s b))
                                   else next_b (heap s x))"
    and "prev_b (heap s' x) = (if x = b + sz then Some b
                                   else if g_tail s \<noteq> Some b \<and> Some x = next_b (heap s b) then Some (b + sz)
                                   else prev_b (heap s x))"
    and "size_b (heap s' x) = (if x = b then sz
                                   else if x = b + sz then size_b (heap s b) - sz
                                   else size_b (heap s x))"
    and "free_b (heap s' x) = (if x = b + sz then True else free_b (heap s x))"
    and "region_id (heap s' x) = (if x = b + sz then region_id (heap s b)
                                      else region_id (heap s x))"
    and "g_head s' = g_head s"
    and "g_tail s' = (if g_tail s = Some b then Some (b + sz) else g_tail s)"
    and "mapped s' = mapped s" and "g_regions s' = g_regions s" and "mem s' = mem s"
    and "stderr s' = stderr s"
proof -
  have d: "size_diff s b sz = size_b (heap s b) - sz"
    using assms by (simp add: size_diff_eq)
  have e: "(b + sz) mod 2 ^ 64 = b + sz"
    using assms by simp
  have rm: "\<not> size_b (heap s b) - sz < 104"
    using assms by arith
  have "split_block b sz s =
      (if Some b = g_tail s then
         Some (Some (b + sz), set_size b sz (set_region (b + sz) (region_id (heap s b))
           (set_free (b + sz) True (set_size (b + sz) (size_b (heap s b) - sz)
             ((set_name (b + sz) (snprintf32 ''Split block '' (g_splits s))
                ((set_next (b + sz) None (set_prev (b + sz) (Some b)
                   (set_next b (Some (b + sz)) s)))\<lparr>g_tail := Some (b + sz)\<rparr>))
               \<lparr>g_splits := (g_splits s + 1) mod 2 ^ 64\<rparr>)))))
       else case next_b (heap s b) of None \<Rightarrow> None
         | Some n \<Rightarrow>
         Some (Some (b + sz), set_size b sz (set_region (b + sz) (region_id (heap s b))
           (set_free (b + sz) True (set_size (b + sz) (size_b (heap s b) - sz)
             ((set_name (b + sz) (snprintf32 ''Split block '' (g_splits s))
                (set_next b (Some (b + sz)) (set_prev (b + sz) (Some b)
                   (set_prev n (Some (b + sz)) (set_next (b + sz) (Some n) s)))))
               \<lparr>g_splits := (g_splits s + 1) mod 2 ^ 64\<rparr>))))))"
    using assms(2-) d e rm
    by (simp add: split_block_def header_size_def BLOCK_ALIGN_def Let_def nxt_def
        set_prev_at_def split: option.split)
  with assms(1) have s': "(Some b = g_tail s \<and> r = Some (b + sz) \<and> s' = set_size b sz (set_region (b + sz) (region_id (heap s b))
           (set_free (b + sz) True (set_size (b + sz) (size_b (heap s b) - sz)
             ((set_name (b + sz) (snprintf32 ''Split block '' (g_splits s))
                ((set_next (b + sz) None (set_prev (b + sz) (Some b)
                   (set_next b (Some (b + sz)) s)))\<lparr>g_tail := Some (b + sz)\<rparr>))
               \<lparr>g_splits := (g_splits s + 1) mod 2 ^ 64\<rparr>))))) \<or>
      (Some b \<noteq> g_tail s \<and> r = Some (b + sz) \<and> (\<exists>n. next_b (heap s b) = Some n \<and> s' = set_size b sz (set_region (b + sz) (region_id (heap s b))
           (set_free (b + sz) True (set_size (b + sz) (size_b (heap s b) - sz)
             ((set_name (b + sz) (snprintf32 ''Split block '' (g_splits s))
                (set_next b (Some (b + sz)) (set_prev (b + sz) (Some b)
                   (set_prev n (Some (b + sz)) (set_next (b + sz) (Some n) s)))))
               \<lparr>g_splits := (g_splits s + 1) mod 2 ^ 64\<rparr>))))))"
    by (auto split: if_splits option.splits)
  from s' show "r = Some (b + sz)" by auto
  from s' assms(3) show "next_b (heap s' x) = (if x = b then Some (b + sz)
                                   else if x = b + sz
                                     then (if g_tail s = Some b then None else next_b (heap s b))
                                   else next_b (heap s x))"
    by (elim disjE conjE exE) auto
  from s' assms(3) show "prev_b (heap s' x) = (if x = b + sz then Some b
                                   else if g_tail s \<noteq> Some b \<and> Some x = next_b (heap s b) then Some (b + sz)
                                   else prev_b (heap s x))"
    by (elim disjE conjE exE) auto
  from s' assms(3) show "size_b (heap s' x) = (if x = b then sz
                                   else if x = b + sz then size_b (heap s b) - sz
                                   else size_b (heap s x))"
    by (elim disjE conjE exE) auto
  from s' show "free_b (heap s' x) = (if x = b + sz then True else free_b (heap s x))"
    by (elim disjE conjE exE) auto
  from s' show "region_id (heap s' x) = (if x = b + sz then region_id (heap s b)
                                      else region_id (heap s x))"
    by (elim disjE conjE exE) auto
  from s' show "g_head s' = g_head s"
    by (elim disjE conjE exE) auto
  from s' show "g_tail s' = (if g_tail s = Some b then Some (b + sz) else g_tail s)"
    by (elim disjE conjE exE) auto
  from s' show "mapped s' = mapped s"
    by (elim disjE conjE exE) auto
  from s' show "g_regions s' = g_regions s"
    by (elim disjE conjE exE) auto
  from s' show "mem s' = mem s"
    by (elim disjE conjE exE) auto
  from s' show "stderr s' = stderr s"
    by (elim disjE conjE exE) auto
qed

section \<open>The layout of the tracked blocks\<close>

lemmas good_defs = good_def fits_memory_def contiguous_def apart_def b_end_def
  header_size_def BLOCK_ALIGN_def

lemma good_append_iff:
  "good G M (Y @ Z) \<longleftrightarrow> good G M Y \<and> good G M Z
     \<and> (Y = [] \<or> Z = [] \<or> contiguous (last Y) (hd Z))
     \<and> (\<forall>x\<in>set Y. \<forall>y\<in>set Z. b_reg x \<le> b_reg y \<and> apart x y)"
  by (auto simp: good_def successively_append_iff sorted_wrt_append)

lemma good_Cons_iff:
  "good G M (B # Z) \<longleftrightarrow> fits_memory G M B \<and> good G M Z
     \<and> (Z = [] \<or> contiguous B (hd Z))
     \<and> (\<forall>y\<in>set Z. b_reg B \<le> b_reg y \<and> apart B y)"
  by (auto simp: good_def successively_Cons)

lemma good_Nil [simp]: "good G M []"
  by (simp add: good_def)

lemma good_split:
  assumes "good G M (Y @ B # Z)" "104 \<le> sz" "sz + 104 \<le> b_len B"
  shows "good G M (Y @ \<lparr>b_at = b_at B, b_len = sz, b_reg = b_reg B, b_free = f1\<rparr>
           # \<lparr>b_at = b_at B + sz, b_len = b_len B - sz, b_reg = b_reg B, b_free = f2\<rparr> # Z)"
  using assms
  apply (simp add: good_append_iff good_Cons_iff)
  apply (auto simp: fits_memory_def contiguous_def apart_def b_end_def header_size_def BLOCK_ALIGN_def)
  done

lemma good_in_range:
  "good G M bs \<Longrightarrow> x \<in> set bs \<Longrightarrow> b_at x \<in> {b_at x ..< b_end x}"
  by (auto simp: good_def list_all_iff fits_memory_def b_end_def header_size_def)

lemma good_fits: "good G M bs \<Longrightarrow> x \<in> set bs \<Longrightarrow> fits_memory G M x"
  by (simp add: good_def list_all_iff)

lemma good_inside_fresh:
  assumes "good G M (Y @ B # Z)" "b_at B < a" "a < b_end B"
  shows "a \<notin> b_at ` set (Y @ B # Z)"
proof -
  have 1: "\<forall>x\<in>set Y. apart x B" "\<forall>z\<in>set Z. apart B z"
    using assms(1) by (auto simp: good_append_iff good_Cons_iff)
  have 2: "\<forall>x\<in>set Y \<union> set Z. 0 < b_len x"
    using good_fits [OF assms(1)] by (fastforce simp: fits_memory_def header_size_def)
  show ?thesis
  proof
    assume "a \<in> b_at ` set (Y @ B # Z)"
    then obtain x where x: "x \<in> set Y \<union> set Z" "a = b_at x"
      using assms(2) by auto
    with 1 2 have "0 < b_len x" "apart x B \<or> apart B x" by auto
    with x assms(2,3) show False
      by (auto simp: apart_def b_end_def)
  qed
qed

lemma view_sel [simp]:
  "b_at (view s x) = x" "b_len (view s x) = size_b (heap s x)"
  "b_reg (view s x) = region_id (heap s x)" "b_free (view s x) = free_b (heap s x)"
  by (simp_all add: view_def)

lemma at_view_image [simp]: "b_at ` view s ` A = A"
  by (auto simp: image_iff)

section \<open>A split keeps the list well formed\<close>

lemma split_block_wf:
  assumes wf: "wf s (ys @ b # zs)" and fr: "free_b (heap s b)"
    and sz: "104 \<le> sz" "sz + 104 \<le> size_b (heap s b)"
  shows "\<exists>s'. split_block b sz s = Some (Some (b + sz), s')
     \<and> wf s' (ys @ b # (b + sz) # zs)
     \<and> (\<forall>x. x \<noteq> b \<longrightarrow> x \<noteq> b + sz \<longrightarrow> view s' x = view s x)
     \<and> view s' b = \<lparr>b_at = b, b_len = sz, b_reg = region_id (heap s b),
                       b_free = True\<rparr>
     \<and> view s' (b + sz) = \<lparr>b_at = b + sz, b_len = size_b (heap s b) - sz,
                             b_reg = region_id (heap s b), b_free = True\<rparr>
     \<and> mapped s' = mapped s \<and> g_regions s' = g_regions s \<and> mem s' = mem s
     \<and> stderr s' = stderr s"
proof -
  from wf have ch: "chain s (ys @ b # zs)"
    and gd: "good (g_regions s) (mapped s) (map (view s) ys @ view s b # map (view s) zs)"
    by (simp_all add: wf_def)
  from gd have fm: "fits_memory (g_regions s) (mapped s) (view s b)"
    by (simp add: good_append_iff good_Cons_iff)
  then have bnd: "size_b (heap s b) < 2 ^ 64" "b + sz < 2 ^ 64" "0 < b"
    using sz by (auto simp: fits_memory_def b_end_def)
  from ch have tl: "g_tail s = Some b \<or> (\<exists>n. next_b (heap s b) = Some n)"
    by (cases zs) (simp_all add: chain_at)
  have "b + sz \<notin> b_at ` set (map (view s) ys @ view s b # map (view s) zs)"
    using gd sz by (intro good_inside_fresh) (auto simp: b_end_def)
  then have fresh: "b + sz \<notin> set ys" "b + sz \<notin> set zs" "b + sz \<noteq> b"
    using sz by (simp_all add: image_Un)
  from split_block_defined [OF tl] obtain r s' where
    eq: "split_block b sz s = Some (r, s')" by blast
  note f = split_block_fields [OF eq fr sz bnd(1,2)]
  note nx = f(2) and pv = f(3) and si = f(4) and fe = f(5) and re = f(6)
  note gl = f(7-12)
  have vw: "\<And>x. x \<noteq> b \<Longrightarrow> x \<noteq> b + sz \<Longrightarrow> view s' x = view s x"
    by (simp add: view_def si fe re)
  have vb: "view s' b = \<lparr>b_at = b, b_len = sz, b_reg = region_id (heap s b),
                       b_free = True\<rparr>"
    using sz fr unfolding view_def si fe re by simp
  have vn: "view s' (b + sz) = \<lparr>b_at = b + sz, b_len = size_b (heap s b) - sz,
                             b_reg = region_id (heap s b), b_free = True\<rparr>"
    using sz unfolding view_def si fe re by simp
  have ch': "chain s' (ys @ b # (b + sz) # zs)"
  proof (cases zs)
    case Nil
    from ch [unfolded Nil chain_at] have d: "distinct (ys @ [b])"
      and h: "dll (heap s) None (g_head s) ys (prev_b (heap s b)) (Some b)"
        "g_tail s = Some b"
      by simp_all
    have "dll (heap s') None (g_head s) ys (prev_b (heap s b)) (Some b)
        = dll (heap s) None (g_head s) ys (prev_b (heap s b)) (Some b)"
    proof (rule dll_cong)
      fix x assume "x \<in> set ys"
      with d fresh have "x \<noteq> b" "x \<noteq> b + sz" by auto
      then show "next_b (heap s' x) = next_b (heap s x) \<and> prev_b (heap s' x) = prev_b (heap s x)"
        by (simp add: nx pv h(2))
    qed
    with h have 1: "dll (heap s') None (g_head s') ys (prev_b (heap s b)) (Some b)"
      by (simp add: gl)
    have 2: "dll (heap s') (prev_b (heap s b)) (Some b) [b, b + sz] (g_tail s') None"
      using fresh(3) by (simp add: nx pv gl h(2))
    have "dll (heap s') None (g_head s') (ys @ [b, b + sz]) (g_tail s') None"
      by (rule dll_appendI [OF 1 2])
    with Nil d fresh show ?thesis
      by (simp add: chain_def)
  next
    case (Cons n zs')
    from ch [unfolded Cons chain_at] have d: "distinct (ys @ b # n # zs')"
      and h: "dll (heap s) None (g_head s) ys (prev_b (heap s b)) (Some b)"
        "next_b (heap s b) = Some n" "prev_b (heap s n) = Some b"
        "dll (heap s) (Some n) (next_b (heap s n)) zs' (g_tail s) None"
      by simp_all
    have nt: "g_tail s \<noteq> Some b"
    proof (cases "zs' = []")
      case True
      with h(4) d show ?thesis by auto
    next
      case False
      from dll_last [OF h(4) False] d False show ?thesis by auto
    qed
    have "dll (heap s') None (g_head s) ys (prev_b (heap s b)) (Some b)
        = dll (heap s) None (g_head s) ys (prev_b (heap s b)) (Some b)"
    proof (rule dll_cong)
      fix x assume "x \<in> set ys"
      with d fresh have "x \<noteq> b" "x \<noteq> b + sz" "x \<noteq> n" by auto
      then show "next_b (heap s' x) = next_b (heap s x) \<and> prev_b (heap s' x) = prev_b (heap s x)"
        by (simp add: nx pv h(2))
    qed
    with h have 1: "dll (heap s') None (g_head s') ys (prev_b (heap s b)) (Some b)"
      by (simp add: gl)
    have "dll (heap s') (Some n) (next_b (heap s n)) zs' (g_tail s) None
        = dll (heap s) (Some n) (next_b (heap s n)) zs' (g_tail s) None"
    proof (rule dll_cong)
      fix x assume "x \<in> set zs'"
      with d fresh Cons have "x \<noteq> b" "x \<noteq> b + sz" "x \<noteq> n" by auto
      then show "next_b (heap s' x) = next_b (heap s x) \<and> prev_b (heap s' x) = prev_b (heap s x)"
        by (simp add: nx pv h(2))
    qed
    with h have 3: "dll (heap s') (Some n) (next_b (heap s n)) zs' (g_tail s') None"
      by (simp add: gl nt)
    have nn: "n \<noteq> b" "n \<noteq> b + sz"
      using d fresh Cons by auto
    have 2: "dll (heap s') (prev_b (heap s b)) (Some b) (b # (b + sz) # n # zs') (g_tail s') None"
      using fresh(3) nn nt 3 by (simp add: nx pv h(2))
    have "dll (heap s') None (g_head s') (ys @ b # (b + sz) # n # zs') (g_tail s') None"
      by (rule dll_appendI [OF 1 2])
    with Cons d fresh show ?thesis
      by (simp add: chain_def)
  qed
  have dd: "b \<notin> set ys" "b \<notin> set zs"
    using ch by (simp_all add: chain_at)
  have "\<And>x. x \<in> set ys \<or> x \<in> set zs \<Longrightarrow> view s' x = view s x"
    using dd fresh by (intro vw) auto
  then have "map (view s') ys = map (view s) ys" "map (view s') zs = map (view s) zs"
    by simp_all
  then have "map (view s') (ys @ b # (b + sz) # zs) =
      map (view s) ys @ \<lparr>b_at = b, b_len = sz, b_reg = region_id (heap s b), b_free = True\<rparr>
        # \<lparr>b_at = b + sz, b_len = size_b (heap s b) - sz,
                             b_reg = region_id (heap s b), b_free = True\<rparr> # map (view s) zs"
    by (simp add: vb vn)
  moreover have "good (g_regions s) (mapped s)
     (map (view s) ys @ \<lparr>b_at = b, b_len = sz, b_reg = region_id (heap s b), b_free = True\<rparr>
        # \<lparr>b_at = b + sz, b_len = size_b (heap s b) - sz,
                             b_reg = region_id (heap s b), b_free = True\<rparr> # map (view s) zs)"
    using good_split [OF gd, of sz True True] sz by simp
  ultimately have "good (g_regions s') (mapped s') (map (view s') (ys @ b # (b + sz) # zs))"
    by (simp only: gl)
  with ch' eq f(1) vw vb vn gl show ?thesis
    by (simp add: wf_def)
qed


section \<open>Merging and removing blocks in a layout\<close>

lemma ivl_disjoint:
  "{a ..< b} \<inter> {c ..< d} = {} \<Longrightarrow> a < b \<Longrightarrow> c < d \<Longrightarrow> b \<le> c \<or> d \<le> (a::nat)"
proof (rule ccontr)
  assume h: "{a ..< b} \<inter> {c ..< d} = {}" "a < b" "c < d" and n: "\<not> (b \<le> c \<or> d \<le> a)"
  then have "max a c \<in> {a ..< b} \<inter> {c ..< d}" by auto
  with h(1) show False by simp
qed

lemma apart_merge_left:
  assumes "apart y B" "apart y N" "b_at N = b_end B" "b_reg N = b_reg B" "0 < b_len y"
    "b_at B' = b_at B" "b_end B' = b_end N" "b_reg B' = b_reg B"
  shows "apart y B'"
  using assms by (auto simp: apart_def b_end_def)

lemma apart_merge_right:
  assumes "apart B z" "apart N z" "b_at N = b_end B" "b_reg N = b_reg B" "0 < b_len z"
    "b_at B' = b_at B" "b_end B' = b_end N" "b_reg B' = b_reg B"
  shows "apart B' z"
  using assms by (auto simp: apart_def b_end_def)

lemma good_merge:
  assumes g: "good G M (Y @ B # N # Z)" and r: "b_reg N = b_reg B"
  shows "good G M (Y @ \<lparr>b_at = b_at B, b_len = b_len B + b_len N, b_reg = b_reg B,
                        b_free = f\<rparr> # Z)"
    (is "good G M (Y @ ?B # Z)")
proof -
  from g have Y: "good G M Y" and Z: "good G M Z"
    and B: "fits_memory G M B" and N: "fits_memory G M N"
    and BN: "contiguous B N"
    and YB: "\<forall>y\<in>set Y. b_reg y \<le> b_reg B \<and> apart y B"
    and YN: "\<forall>y\<in>set Y. apart y N"
    and BZ: "\<forall>z\<in>set Z. apart B z"
    and NZ: "\<forall>z\<in>set Z. b_reg N \<le> b_reg z \<and> apart N z"
    and YZ: "\<forall>y\<in>set Y. \<forall>z\<in>set Z. b_reg y \<le> b_reg z \<and> apart y z"
    and jY: "Y = [] \<or> contiguous (last Y) B"
    and jZ: "Z = [] \<or> contiguous N (hd Z)"
    by (auto simp: good_append_iff good_Cons_iff)
  from BN r have at: "b_at N = b_end B" by (simp add: contiguous_def)
  have e: "b_at ?B = b_at B" "b_end ?B = b_end N" "b_reg ?B = b_reg B"
    using at by (simp_all add: b_end_def)
  have pos: "\<forall>x\<in>set Y \<union> set Z. 0 < b_len x"
    using good_fits [OF Y] good_fits [OF Z] by (fastforce simp: fits_memory_def header_size_def)
  have "{b_at B ..< b_at B + (b_len B + b_len N)} \<subseteq> {b_at B ..< b_end B} \<union> {b_at N ..< b_end N}"
    using at by (auto simp: b_end_def)
  moreover have "{b_at B ..< b_end B} \<subseteq> M" "{b_at N ..< b_end N} \<subseteq> M"
    using B N by (simp_all add: fits_memory_def)
  ultimately have sub: "{b_at B ..< b_at B + (b_len B + b_len N)} \<subseteq> M"
    by blast
  have fB: "fits_memory G M ?B"
    using B N at sub by (simp add: fits_memory_def b_end_def)
  have 1: "\<forall>y\<in>set Y. b_reg y \<le> b_reg ?B \<and> apart y ?B"
  proof
    fix y assume y: "y \<in> set Y"
    with YB YN pos have "apart y B" "apart y N" "0 < b_len y" "b_reg y \<le> b_reg B" by auto
    then show "b_reg y \<le> b_reg ?B \<and> apart y ?B"
      using apart_merge_left [OF _ _ at r _ e] by simp
  qed
  have 2: "\<forall>z\<in>set Z. b_reg ?B \<le> b_reg z \<and> apart ?B z"
  proof
    fix z assume z: "z \<in> set Z"
    with BZ NZ pos have "apart B z" "apart N z" "0 < b_len z" "b_reg N \<le> b_reg z" by auto
    then show "b_reg ?B \<le> b_reg z \<and> apart ?B z"
      using apart_merge_right [OF _ _ at r _ e] r by simp
  qed
  have 3: "Y = [] \<or> contiguous (last Y) ?B"
    using jY by (auto simp: contiguous_def)
  have 4: "Z = [] \<or> contiguous ?B (hd Z)"
    using jZ r e by (auto simp: contiguous_def)
  show ?thesis
    using Y Z fB 1 2 3 4 YZ by (simp add: good_append_iff good_Cons_iff)
qed

lemma good_mono: "good G M bs \<Longrightarrow> M \<subseteq> M' \<Longrightarrow> G \<le> G' \<Longrightarrow> good G' M' bs"
  by (auto simp: good_def list_all_iff fits_memory_def)

lemma good_remove:
  assumes "good G M (Y @ B # Z)"
    "Y = [] \<or> b_reg (last Y) \<noteq> b_reg B" "Z = [] \<or> b_reg (hd Z) \<noteq> b_reg B"
  shows "good G (M - {b_at B ..< b_end B}) (Y @ Z)"
proof -
  from assms(1) have Y: "good G M Y" and Z: "good G M Z" and B: "fits_memory G M B"
    and YB: "\<forall>x\<in>set Y. b_reg x \<le> b_reg B \<and> apart x B"
    and BZ: "\<forall>z\<in>set Z. b_reg B \<le> b_reg z \<and> apart B z"
    and YZ: "\<forall>x\<in>set Y. \<forall>z\<in>set Z. b_reg x \<le> b_reg z \<and> apart x z"
    by (auto simp: good_append_iff good_Cons_iff)
  have 1: "list_all (fits_memory G (M - {b_at B ..< b_end B})) (Y @ Z)"
    using Y Z YB BZ
    by (auto simp: good_def list_all_iff fits_memory_def apart_def b_end_def header_size_def)
  have 2: "Y = [] \<or> Z = [] \<or> contiguous (last Y) (hd Z)"
  proof (cases "Y = [] \<or> Z = []")
    case False
    then have "last Y \<in> set Y" "hd Z \<in> set Z" by auto
    with YB BZ have "b_reg (last Y) \<le> b_reg B" "b_reg B \<le> b_reg (hd Z)" by auto
    moreover from assms(2,3) False
    have "b_reg (last Y) \<noteq> b_reg B" "b_reg (hd Z) \<noteq> b_reg B" by auto
    ultimately have "b_reg (last Y) < b_reg (hd Z)" by linarith
    then show ?thesis by (simp add: contiguous_def)
  qed auto
  from Y Z have "successively contiguous Y" "successively contiguous Z"
    "sorted_wrt (\<lambda>x y. b_reg x \<le> b_reg y) Y" "sorted_wrt (\<lambda>x y. b_reg x \<le> b_reg y) Z"
    "sorted_wrt apart Y" "sorted_wrt apart Z"
    by (simp_all add: good_def)
  with 1 2 YZ show ?thesis
    by (simp add: good_def successively_append_iff sorted_wrt_append)
qed

lemma good_new_region:
  assumes "good G M Y" "{a ..< a + L} \<inter> M = {}" "104 \<le> L" "a + L \<le> 2 ^ 64" "0 < a"
  shows "good (Suc G) (M \<union> {a ..< a + L}) (Y @ [\<lparr>b_at = a, b_len = L, b_reg = G, b_free = f\<rparr>])"
proof -
  have 1: "good (Suc G) (M \<union> {a ..< a + L}) Y"
    using assms(1) by (rule good_mono) auto
  have 2: "\<forall>x\<in>set Y. b_reg x < G \<and> {b_at x ..< b_end x} \<subseteq> M \<and> 0 < b_len x"
    using assms(1) by (auto simp: good_def list_all_iff fits_memory_def header_size_def)
  have 3: "\<forall>x\<in>set Y. apart x \<lparr>b_at = a, b_len = L, b_reg = G, b_free = f\<rparr>"
  proof
    fix x assume x: "x \<in> set Y"
    with 2 have r: "b_reg x < G" "{b_at x ..< b_end x} \<subseteq> M" "0 < b_len x" by auto
    with assms(2) have "{b_at x ..< b_end x} \<inter> {a ..< a + L} = {}" by blast
    moreover from r(3) have "b_at x < b_end x" by (simp add: b_end_def)
    moreover from assms(3) have "a < a + L" by simp
    ultimately have "b_end x \<le> a \<or> a + L \<le> b_at x"
      by (rule ivl_disjoint)
    with r(1) show "apart x \<lparr>b_at = a, b_len = L, b_reg = G, b_free = f\<rparr>"
      by (auto simp: apart_def b_end_def)
  qed
  have 4: "Y = [] \<or> contiguous (last Y) \<lparr>b_at = a, b_len = L, b_reg = G, b_free = f\<rparr>"
  proof (cases "Y = []")
    case False
    then have "last Y \<in> set Y" by simp
    with 2 have "b_reg (last Y) < G" by blast
    then show ?thesis by (simp add: contiguous_def)
  qed simp
  have 5: "fits_memory (Suc G) (M \<union> {a ..< a + L}) \<lparr>b_at = a, b_len = L, b_reg = G, b_free = f\<rparr>"
    using assms(3-) by (auto simp: fits_memory_def b_end_def header_size_def BLOCK_ALIGN_def)
  have 6: "\<forall>x\<in>set Y. b_reg x \<le> G"
    using 2 by auto
  show ?thesis
    using 1 3 4 5 6 by (simp add: good_append_iff good_Cons_iff)
qed

lemma good_erase: "good G M (map (\<lambda>b. b\<lparr>b_free := False\<rparr>) bs) = good G M bs"
  by (simp add: good_def list_all_iff successively_map sorted_wrt_map fits_memory_def
      contiguous_def [abs_def] apart_def [abs_def] b_end_def)

section \<open>Absorbing the next block\<close>

lemma merge_with_next_noop:
  assumes "next_b (heap s b) = None
     \<or> (\<exists>n. next_b (heap s b) = Some n
           \<and> \<not> (free_b (heap s n) \<and> region_id (heap s n) = region_id (heap s b)))"
  shows "merge_with_next b s = Some s"
  using assms by (auto simp: merge_with_next_def nxt_def)

lemma merge_with_next_tail:
  assumes "next_b (heap s b) = Some n" "n \<noteq> b"
    "free_b (heap s n)" "region_id (heap s n) = region_id (heap s b)"
    "size_b (heap s b) + size_b (heap s n) < 2 ^ 64" "g_tail s = Some n"
  shows "merge_with_next b s =
    Some (set_next b None (set_prev n None
      ((set_size b (size_b (heap s b) + size_b (heap s n)) s)\<lparr>g_tail := Some b\<rparr>)))"
  using assms by (simp add: merge_with_next_def Let_def nxt_def set_prev_at_def)

lemma merge_with_next_mid:
  assumes "next_b (heap s b) = Some n" "n \<noteq> b"
    "free_b (heap s n)" "region_id (heap s n) = region_id (heap s b)"
    "size_b (heap s b) + size_b (heap s n) < 2 ^ 64" "g_tail s \<noteq> Some n"
    "next_b (heap s n) = Some m"
  shows "merge_with_next b s =
    Some (set_prev m (Some b) (set_next b (Some m)
      (set_size b (size_b (heap s b) + size_b (heap s n)) s)))"
  using assms by (simp add: merge_with_next_def Let_def nxt_def set_prev_at_def)

lemma view_upd [simp]:
  "view (set_next a p s) x = view s x"
  "view (set_prev a p s) x = view s x"
  "view (set_name a nm s) x = view s x"
  "view (set_size a v s) x = (if x = a then (view s x)\<lparr>b_len := v\<rparr> else view s x)"
  "view (set_free a f s) x = (if x = a then (view s x)\<lparr>b_free := f\<rparr> else view s x)"
  "view (set_region a r s) x = (if x = a then (view s x)\<lparr>b_reg := r\<rparr> else view s x)"
  "view (s\<lparr>g_tail := t\<rparr>) x = view s x"
  "view (s\<lparr>g_head := t\<rparr>) x = view s x"
  "view (s\<lparr>g_splits := k\<rparr>) x = view s x"
  "view (s\<lparr>g_allocations := k\<rparr>) x = view s x"
  "view (s\<lparr>g_regions := k\<rparr>) x = view s x"
  "view (s\<lparr>mapped := M\<rparr>) x = view s x"
  "view (s\<lparr>mem := mm\<rparr>) x = view s x"
  "view (s\<lparr>stderr := er\<rparr>) x = view s x"
  by (simp_all add: view_def)

lemma chain_tail_next:
  assumes "chain s (ys @ b # n # zs)"
  shows "g_tail s \<noteq> Some b"
proof -
  from assms have d: "distinct (ys @ b # n # zs)"
    and h: "dll (heap s) (Some b) (next_b (heap s b)) (n # zs) (g_tail s) None"
    by (simp_all add: chain_at)
  from dll_last [OF h] have "g_tail s = Some (last (n # zs))" by simp
  moreover have "last (n # zs) \<in> set (n # zs)" by (rule last_in_set) simp
  ultimately show ?thesis using d by auto
qed

lemma wf_bounds:
  assumes "wf s xs" "x \<in> set xs"
  shows "0 < x" "104 \<le> size_b (heap s x)" "x + size_b (heap s x) \<le> 2 ^ 64"
    "region_id (heap s x) < g_regions s" "{x ..< x + size_b (heap s x)} \<subseteq> mapped s"
proof -
  from assms have "fits_memory (g_regions s) (mapped s) (view s x)"
    by (auto simp: wf_def intro: good_fits)
  then show "0 < x" "104 \<le> size_b (heap s x)" "x + size_b (heap s x) \<le> 2 ^ 64"
    "region_id (heap s x) < g_regions s" "{x ..< x + size_b (heap s x)} \<subseteq> mapped s"
    by (simp_all add: fits_memory_def b_end_def header_size_def BLOCK_ALIGN_def)
qed

lemma wf_contiguous:
  assumes "wf s (ys @ b # n # zs)" "region_id (heap s n) = region_id (heap s b)"
  shows "n = b + size_b (heap s b)"
proof -
  from assms(1) have "good (g_regions s) (mapped s) (map (view s) ys @ view s b # view s n # map (view s) zs)"
    by (simp add: wf_def)
  then have "contiguous (view s b) (view s n)"
    by (simp add: good_append_iff good_Cons_iff)
  with assms(2) show ?thesis by (simp add: contiguous_def b_end_def)
qed

lemma wf_intro:
  "chain t xs \<Longrightarrow> good (g_regions t) (mapped t) bs \<Longrightarrow> map (view t) xs = bs \<Longrightarrow> wf t xs"
  by (simp add: wf_def)

lemma map_view_at:
  "(\<And>x. x \<in> set ys \<union> set zs \<Longrightarrow> view t x = view s x) \<Longrightarrow> view t b = B
   \<Longrightarrow> map (view t) (ys @ b # zs) = map (view s) ys @ B # map (view s) zs"
  by simp

lemma map_view_same:
  "(\<And>x. x \<in> set xs \<Longrightarrow> view t x = view s x) \<Longrightarrow> map (view t) xs = map (view s) xs"
  by simp

lemma merge_next_wf:
  assumes wf: "wf s (ys @ b # n # zs)"
    and fr: "free_b (heap s n)" and rg: "region_id (heap s n) = region_id (heap s b)"
  shows "\<exists>s'. merge_with_next b s = Some s' \<and> wf s' (ys @ b # zs)
     \<and> view s' b = \<lparr>b_at = b, b_len = size_b (heap s b) + size_b (heap s n),
                       b_reg = region_id (heap s b), b_free = free_b (heap s b)\<rparr>
     \<and> (\<forall>x. x \<noteq> b \<longrightarrow> view s' x = view s x)
     \<and> mapped s' = mapped s \<and> g_regions s' = g_regions s \<and> mem s' = mem s
     \<and> stderr s' = stderr s"
proof -
  from wf have ch: "chain s (ys @ b # n # zs)"
    and gd: "good (g_regions s) (mapped s)
              (map (view s) ys @ view s b # view s n # map (view s) zs)"
    by (simp_all add: wf_def)
  from ch have d: "distinct (ys @ b # n # zs)"
    and hy: "dll (heap s) None (g_head s) ys (prev_b (heap s b)) (Some b)"
    and nb: "next_b (heap s b) = Some n"
    and hz: "dll (heap s) (Some n) (next_b (heap s n)) zs (g_tail s) None"
    by (simp_all add: chain_at)
  from d have ne: "n \<noteq> b" by auto
  have nat: "n = b + size_b (heap s b)"
    using wf rg by (rule wf_contiguous)
  have "n + size_b (heap s n) \<le> 2 ^ 64" "0 < b"
    using wf_bounds [OF wf, of n] wf_bounds [OF wf, of b] by simp_all
  then have sm: "size_b (heap s b) + size_b (heap s n) < 2 ^ 64"
    using nat by simp
  have gd': "good (g_regions s) (mapped s)
      (map (view s) ys @ \<lparr>b_at = b, b_len = size_b (heap s b) + size_b (heap s n),
                       b_reg = region_id (heap s b), b_free = free_b (heap s b)\<rparr>
        # map (view s) zs)"
    using good_merge [OF gd, of "free_b (heap s b)"] rg by simp
  show ?thesis
  proof (cases zs)
    case Nil
    with hz have tl: "g_tail s = Some n" by simp
    let ?T = "set_next b None (set_prev n None
      ((set_size b (size_b (heap s b) + size_b (heap s n)) s)\<lparr>g_tail := Some b\<rparr>))"
    have eq: "merge_with_next b s = Some ?T"
      using nb ne fr rg sm tl by (rule merge_with_next_tail)
    have "dll (heap ?T) None (g_head s) ys (prev_b (heap s b)) (Some b)
        = dll (heap s) None (g_head s) ys (prev_b (heap s b)) (Some b)"
    proof (rule dll_cong)
      fix x assume "x \<in> set ys"
      with d have "x \<noteq> b" "x \<noteq> n" by auto
      then show "next_b (heap ?T x) = next_b (heap s x) \<and> prev_b (heap ?T x) = prev_b (heap s x)"
        by simp
    qed
    with hy have "dll (heap ?T) None (g_head ?T) ys (prev_b (heap ?T b)) (Some b)"
      using ne by simp
    then have ch': "chain ?T (ys @ [b])"
      using d by (simp add: chain_at)
    have vb: "view ?T b = \<lparr>b_at = b, b_len = size_b (heap s b) + size_b (heap s n),
                       b_reg = region_id (heap s b), b_free = free_b (heap s b)\<rparr>"
      by (simp add: view_def)
    have vx: "\<And>x. x \<noteq> b \<Longrightarrow> view ?T x = view s x"
      by simp
    have mv: "map (view ?T) (ys @ b # zs) = map (view s) ys @
        \<lparr>b_at = b, b_len = size_b (heap s b) + size_b (heap s n),
                       b_reg = region_id (heap s b), b_free = free_b (heap s b)\<rparr>
        # map (view s) zs"
    proof (rule map_view_at)
      fix x assume "x \<in> set ys \<union> set zs"
      with d have "x \<noteq> b" by auto
      then show "view ?T x = view s x" by simp
    qed (rule vb)
    have g2: "good (g_regions ?T) (mapped ?T) (map (view s) ys @
        \<lparr>b_at = b, b_len = size_b (heap s b) + size_b (heap s n),
                       b_reg = region_id (heap s b), b_free = free_b (heap s b)\<rparr>
        # map (view s) zs)"
      using gd' by simp
    from ch' have "chain ?T (ys @ b # zs)"
      using Nil by simp
    then have "wf ?T (ys @ b # zs)"
      using g2 mv by (rule wf_intro)
    with eq vb vx show ?thesis
      by simp
  next
    case (Cons m zs')
    with hz have nm: "next_b (heap s n) = Some m"
      and hz': "dll (heap s) (Some m) (next_b (heap s m)) zs' (g_tail s) None"
      by simp_all
    have tl: "g_tail s \<noteq> Some n"
      using chain_tail_next [of s "ys @ [b]" n m zs'] ch Cons by simp
    let ?T = "set_prev m (Some b) (set_next b (Some m)
      (set_size b (size_b (heap s b) + size_b (heap s n)) s))"
    have eq: "merge_with_next b s = Some ?T"
      using nb ne fr rg sm tl nm by (rule merge_with_next_mid)
    from d Cons have dm: "m \<noteq> b" "m \<noteq> n" "m \<notin> set ys" "m \<notin> set zs'" by auto
    have "dll (heap ?T) None (g_head s) ys (prev_b (heap s b)) (Some b)
        = dll (heap s) None (g_head s) ys (prev_b (heap s b)) (Some b)"
    proof (rule dll_cong)
      fix x assume "x \<in> set ys"
      with d dm have "x \<noteq> b" "x \<noteq> m" by auto
      then show "next_b (heap ?T x) = next_b (heap s x) \<and> prev_b (heap ?T x) = prev_b (heap s x)"
        by simp
    qed
    with hy have 1: "dll (heap ?T) None (g_head ?T) ys (prev_b (heap ?T b)) (Some b)"
      using dm by simp
    have "dll (heap ?T) (Some m) (next_b (heap s m)) zs' (g_tail s) None
        = dll (heap s) (Some m) (next_b (heap s m)) zs' (g_tail s) None"
    proof (rule dll_cong)
      fix x assume "x \<in> set zs'"
      with d dm Cons have "x \<noteq> b" "x \<noteq> m" by auto
      then show "next_b (heap ?T x) = next_b (heap s x) \<and> prev_b (heap ?T x) = prev_b (heap s x)"
        by simp
    qed
    with hz' have 2: "dll (heap ?T) (Some b) (next_b (heap ?T b)) (m # zs') (g_tail ?T) None"
      using dm by simp
    have ch': "chain ?T (ys @ b # m # zs')"
      using 1 2 d Cons by (simp add: chain_at)
    have vb: "view ?T b = \<lparr>b_at = b, b_len = size_b (heap s b) + size_b (heap s n),
                       b_reg = region_id (heap s b), b_free = free_b (heap s b)\<rparr>"
      by (simp add: view_def)
    have vx: "\<And>x. x \<noteq> b \<Longrightarrow> view ?T x = view s x"
      by simp
    have mv: "map (view ?T) (ys @ b # zs) = map (view s) ys @
        \<lparr>b_at = b, b_len = size_b (heap s b) + size_b (heap s n),
                       b_reg = region_id (heap s b), b_free = free_b (heap s b)\<rparr>
        # map (view s) zs"
    proof (rule map_view_at)
      fix x assume "x \<in> set ys \<union> set zs"
      with d have "x \<noteq> b" by auto
      then show "view ?T x = view s x" by simp
    qed (rule vb)
    have g2: "good (g_regions ?T) (mapped ?T) (map (view s) ys @
        \<lparr>b_at = b, b_len = size_b (heap s b) + size_b (heap s n),
                       b_reg = region_id (heap s b), b_free = free_b (heap s b)\<rparr>
        # map (view s) zs)"
      using gd' by simp
    from ch' have "chain ?T (ys @ b # zs)"
      using Cons by simp
    then have "wf ?T (ys @ b # zs)"
      using g2 mv by (rule wf_intro)
    with eq vb vx show ?thesis
      by simp
  qed
qed

section \<open>Absorption by the previous block\<close>

lemma merge_with_prev_noop:
  assumes "prev_b (heap s b) = None
     \<or> (\<exists>p. prev_b (heap s b) = Some p
           \<and> \<not> (free_b (heap s p) \<and> region_id (heap s p) = region_id (heap s b)))"
  shows "merge_with_prev b s = Some s"
  using assms by (auto simp: merge_with_prev_def prv_def)

lemma merge_with_prev_tail:
  assumes "prev_b (heap s b) = Some p" "p \<noteq> b"
    "free_b (heap s p)" "region_id (heap s p) = region_id (heap s b)"
    "size_b (heap s p) + size_b (heap s b) < 2 ^ 64" "g_tail s = Some b"
  shows "merge_with_prev b s =
    Some (set_prev b None (set_next p None
      ((set_size p (size_b (heap s p) + size_b (heap s b)) s)\<lparr>g_tail := Some p\<rparr>)))"
  using assms by (simp add: merge_with_prev_def Let_def prv_def nxt_def set_next_at_def)

lemma merge_with_prev_mid:
  assumes "prev_b (heap s b) = Some p" "p \<noteq> b"
    "free_b (heap s p)" "region_id (heap s p) = region_id (heap s b)"
    "size_b (heap s p) + size_b (heap s b) < 2 ^ 64" "g_tail s \<noteq> Some b"
    "next_b (heap s b) = Some n"
  shows "merge_with_prev b s =
    Some (set_prev n (Some p) (set_next p (Some n)
      (set_size p (size_b (heap s p) + size_b (heap s b)) s)))"
  using assms by (simp add: merge_with_prev_def Let_def prv_def nxt_def set_next_at_def)

lemma chain_snoc_prev:
  assumes "chain s (ys @ p # b # zs)"
  shows "prev_b (heap s b) = Some p" "next_b (heap s p) = Some b"
    "dll (heap s) None (g_head s) ys (prev_b (heap s p)) (Some p)"
    "dll (heap s) (Some b) (next_b (heap s b)) zs (g_tail s) None"
    "distinct (ys @ p # b # zs)"
  using assms by (simp_all add: chain_at)

lemma merge_prev_wf:
  assumes wf: "wf s (ys @ p # b # zs)"
    and fr: "free_b (heap s p)" and rg: "region_id (heap s p) = region_id (heap s b)"
  shows "\<exists>s'. merge_with_prev b s = Some s' \<and> wf s' (ys @ p # zs)
     \<and> view s' p = \<lparr>b_at = p, b_len = size_b (heap s p) + size_b (heap s b),
                       b_reg = region_id (heap s p), b_free = free_b (heap s p)\<rparr>
     \<and> (\<forall>x. x \<noteq> p \<longrightarrow> view s' x = view s x)
     \<and> \<not> prev_other_region s' b
     \<and> mapped s' = mapped s \<and> g_regions s' = g_regions s \<and> mem s' = mem s
     \<and> stderr s' = stderr s"
proof -
  from wf have ch: "chain s (ys @ p # b # zs)"
    and gd: "good (g_regions s) (mapped s)
              (map (view s) ys @ view s p # view s b # map (view s) zs)"
    by (simp_all add: wf_def)
  note c = chain_snoc_prev [OF ch]
  from c(5) have ne: "p \<noteq> b" by auto
  have nat: "b = p + size_b (heap s p)"
    using wf rg [symmetric] by (rule wf_contiguous)
  have "b + size_b (heap s b) \<le> 2 ^ 64" "0 < p"
    using wf_bounds [OF wf, of b] wf_bounds [OF wf, of p] by simp_all
  then have sm: "size_b (heap s p) + size_b (heap s b) < 2 ^ 64"
    using nat by simp
  have gd': "good (g_regions s) (mapped s)
      (map (view s) ys @ \<lparr>b_at = p, b_len = size_b (heap s p) + size_b (heap s b),
                       b_reg = region_id (heap s p), b_free = free_b (heap s p)\<rparr>
        # map (view s) zs)"
    using good_merge [OF gd, of "free_b (heap s p)"] rg by simp
  show ?thesis
  proof (cases zs)
    case Nil
    with c(4) have tl: "g_tail s = Some b" by simp
    let ?T = "set_prev b None (set_next p None
      ((set_size p (size_b (heap s p) + size_b (heap s b)) s)\<lparr>g_tail := Some p\<rparr>))"
    have eq: "merge_with_prev b s = Some ?T"
      using c(1) ne fr rg sm tl by (rule merge_with_prev_tail)
    have "dll (heap ?T) None (g_head s) ys (prev_b (heap s p)) (Some p)
        = dll (heap s) None (g_head s) ys (prev_b (heap s p)) (Some p)"
    proof (rule dll_cong)
      fix x assume "x \<in> set ys"
      with c(5) have "x \<noteq> b" "x \<noteq> p" by auto
      then show "next_b (heap ?T x) = next_b (heap s x) \<and> prev_b (heap ?T x) = prev_b (heap s x)"
        by simp
    qed
    with c(3) have "dll (heap ?T) None (g_head ?T) ys (prev_b (heap ?T p)) (Some p)"
      using ne by simp
    then have "chain ?T (ys @ [p])"
      using c(5) by (simp add: chain_at)
    then have ch': "chain ?T (ys @ p # zs)"
      using Nil by simp
    have vb: "view ?T p = \<lparr>b_at = p, b_len = size_b (heap s p) + size_b (heap s b),
                       b_reg = region_id (heap s p), b_free = free_b (heap s p)\<rparr>"
      by (simp add: view_def)
    have vx: "\<And>x. x \<noteq> p \<Longrightarrow> view ?T x = view s x"
      by simp
    have mv: "map (view ?T) (ys @ p # zs) = map (view s) ys @
        \<lparr>b_at = p, b_len = size_b (heap s p) + size_b (heap s b),
                       b_reg = region_id (heap s p), b_free = free_b (heap s p)\<rparr>
        # map (view s) zs"
    proof (rule map_view_at)
      fix x assume "x \<in> set ys \<union> set zs"
      with c(5) have "x \<noteq> p" by auto
      then show "view ?T x = view s x" by simp
    qed (rule vb)
    have g2: "good (g_regions ?T) (mapped ?T) (map (view s) ys @
        \<lparr>b_at = p, b_len = size_b (heap s p) + size_b (heap s b),
                       b_reg = region_id (heap s p), b_free = free_b (heap s p)\<rparr>
        # map (view s) zs)"
      using gd' by simp
    from ch' have w: "wf ?T (ys @ p # zs)"
      using g2 mv by (rule wf_intro)
    have po: "\<not> prev_other_region ?T b"
      by (simp add: prev_other_region_def prv_def)
    from eq w vb vx po show ?thesis
      by simp
  next
    case (Cons n zs')
    with c(4) have nn: "next_b (heap s b) = Some n"
      and hz': "dll (heap s) (Some n) (next_b (heap s n)) zs' (g_tail s) None"
      by simp_all
    have tl: "g_tail s \<noteq> Some b"
      using chain_tail_next [of s "ys @ [p]" b n zs'] ch Cons by simp
    let ?T = "set_prev n (Some p) (set_next p (Some n)
      (set_size p (size_b (heap s p) + size_b (heap s b)) s))"
    have eq: "merge_with_prev b s = Some ?T"
      using c(1) ne fr rg sm tl nn by (rule merge_with_prev_mid)
    from c(5) Cons have dm: "n \<noteq> b" "n \<noteq> p" "n \<notin> set ys" "n \<notin> set zs'" by auto
    have "dll (heap ?T) None (g_head s) ys (prev_b (heap s p)) (Some p)
        = dll (heap s) None (g_head s) ys (prev_b (heap s p)) (Some p)"
    proof (rule dll_cong)
      fix x assume "x \<in> set ys"
      with c(5) dm have "x \<noteq> n" "x \<noteq> p" by auto
      then show "next_b (heap ?T x) = next_b (heap s x) \<and> prev_b (heap ?T x) = prev_b (heap s x)"
        by simp
    qed
    with c(3) have 1: "dll (heap ?T) None (g_head ?T) ys (prev_b (heap ?T p)) (Some p)"
      using dm by simp
    have "dll (heap ?T) (Some n) (next_b (heap s n)) zs' (g_tail s) None
        = dll (heap s) (Some n) (next_b (heap s n)) zs' (g_tail s) None"
    proof (rule dll_cong)
      fix x assume "x \<in> set zs'"
      with c(5) dm Cons have "x \<noteq> n" "x \<noteq> p" by auto
      then show "next_b (heap ?T x) = next_b (heap s x) \<and> prev_b (heap ?T x) = prev_b (heap s x)"
        by simp
    qed
    with hz' have 2: "dll (heap ?T) (Some p) (next_b (heap ?T p)) (n # zs') (g_tail ?T) None"
      using dm by simp
    have "chain ?T (ys @ p # n # zs')"
      using 1 2 c(5) Cons by (simp add: chain_at)
    then have ch': "chain ?T (ys @ p # zs)"
      using Cons by simp
    have vb: "view ?T p = \<lparr>b_at = p, b_len = size_b (heap s p) + size_b (heap s b),
                       b_reg = region_id (heap s p), b_free = free_b (heap s p)\<rparr>"
      by (simp add: view_def)
    have vx: "\<And>x. x \<noteq> p \<Longrightarrow> view ?T x = view s x"
      by simp
    have mv: "map (view ?T) (ys @ p # zs) = map (view s) ys @
        \<lparr>b_at = p, b_len = size_b (heap s p) + size_b (heap s b),
                       b_reg = region_id (heap s p), b_free = free_b (heap s p)\<rparr>
        # map (view s) zs"
    proof (rule map_view_at)
      fix x assume "x \<in> set ys \<union> set zs"
      with c(5) have "x \<noteq> p" by auto
      then show "view ?T x = view s x" by simp
    qed (rule vb)
    have g2: "good (g_regions ?T) (mapped ?T) (map (view s) ys @
        \<lparr>b_at = p, b_len = size_b (heap s p) + size_b (heap s b),
                       b_reg = region_id (heap s p), b_free = free_b (heap s p)\<rparr>
        # map (view s) zs)"
      using gd' by simp
    from ch' have w: "wf ?T (ys @ p # zs)"
      using g2 mv by (rule wf_intro)
    have po: "\<not> prev_other_region ?T b"
      using c(1) dm ne rg by (simp add: prev_other_region_def prv_def)
    from eq w vb vx po show ?thesis
      by simp
  qed
qed

section \<open>Unlinking and unmapping a region\<close>

lemma chain_upd [simp]:
  "chain (s\<lparr>mapped := M\<rparr>) xs = chain s xs"
  "chain (s\<lparr>stderr := er\<rparr>) xs = chain s xs"
  "chain (s\<lparr>mem := mm\<rparr>) xs = chain s xs"
  "chain (s\<lparr>g_splits := k\<rparr>) xs = chain s xs"
  "chain (s\<lparr>g_allocations := k\<rparr>) xs = chain s xs"
  "chain (s\<lparr>g_regions := k\<rparr>) xs = chain s xs"
  by (simp_all add: chain_def)

lemma view_upd_fun [simp]:
  "view (set_next a p s) = view s"
  "view (set_prev a p s) = view s"
  "view (set_name a nm s) = view s"
  "view (s\<lparr>g_tail := t\<rparr>) = view s"
  "view (s\<lparr>g_head := t\<rparr>) = view s"
  "view (s\<lparr>g_splits := k\<rparr>) = view s"
  "view (s\<lparr>g_allocations := k\<rparr>) = view s"
  "view (s\<lparr>g_regions := k\<rparr>) = view s"
  "view (s\<lparr>mapped := M\<rparr>) = view s"
  "view (s\<lparr>mem := mm\<rparr>) = view s"
  "view (s\<lparr>stderr := er\<rparr>) = view s"
  by (rule ext, simp)+

lemma chain_head_mem: "chain s xs \<Longrightarrow> g_head s = Some h \<Longrightarrow> h \<in> set xs"
  by (cases xs) (auto simp: chain_def)

lemma chain_tail_mem: "chain s xs \<Longrightarrow> g_tail s = Some t \<Longrightarrow> t \<in> set xs"
proof (cases "xs = []")
  case False
  assume "chain s xs" "g_tail s = Some t"
  with dll_last [of "heap s" None "g_head s" xs "g_tail s" None] False
  have "t = last xs" by (simp add: chain_def)
  with False show ?thesis by simp
qed (simp add: chain_def)

lemma chain_head_prev:
  assumes "chain s (ys @ p # b # zs)"
  shows "g_head s \<noteq> Some b"
proof
  assume "g_head s = Some b"
  moreover from assms have "dll (heap s) None (g_head s) (ys @ [p]) (prev_b (heap s b)) (Some b)"
    and d: "distinct (ys @ p # b # zs)"
    using chain_at [of s "ys @ [p]" b zs] by simp_all
  ultimately have "Some b = Some (hd (ys @ [p]))"
    using dll_hd [of "heap s" None "g_head s" "ys @ [p]"] by simp
  moreover have "hd (ys @ [p]) \<in> set (ys @ [p])" by (rule hd_in_set) simp
  ultimately show False using d by auto
qed

lemma release_region_absent:
  assumes "chain s xs" "b \<notin> set xs" "\<not> prev_other_region s b"
  shows "release_region e b s = Some (Some b, s)"
proof -
  from assms(1,2) have "g_head s \<noteq> Some b" "g_tail s \<noteq> Some b"
    by (auto dest: chain_head_mem chain_tail_mem)
  with assms(3) show ?thesis
    by (auto simp: release_region_def)
qed

lemma do_munmap_wf:
  assumes "chain T xs"
    "good (g_regions T) (mapped T - {b ..< b + size_b (heap T b)}) (map (view T) xs)"
  shows "wf (snd (do_munmap e b T)) xs"
proof (cases "munmap_ok e")
  case True
  with assms show ?thesis
    by (simp add: do_munmap_def wf_def)
next
  case False
  from assms(2) have "good (g_regions T) (mapped T) (map (view T) xs)"
    by (rule good_mono) auto
  with False assms(1) show ?thesis
    by (simp add: do_munmap_def wf_def)
qed

lemma do_munmap_sel [simp]:
  "fst (do_munmap e b T) = (if munmap_ok e then Some b else None)"
  "mapped (snd (do_munmap e b T)) =
     (if munmap_ok e then mapped T - {b ..< b + size_b (heap T b)} else mapped T)"
  "stderr (snd (do_munmap e b T)) =
     (if munmap_ok e then stderr T else stderr T @ [''munmap''])"
  "g_regions (snd (do_munmap e b T)) = g_regions T"
  "mem (snd (do_munmap e b T)) = mem T"
  "view (snd (do_munmap e b T)) = view T"
  "g_head (snd (do_munmap e b T)) = g_head T"
  "g_tail (snd (do_munmap e b T)) = g_tail T"
  "heap (snd (do_munmap e b T)) = heap T"
  by (simp_all add: do_munmap_def)

lemma wf_rid:
  assumes "wf s (ys @ b # zs)"
  shows "\<forall>x\<in>set ys. region_id (heap s x) \<le> region_id (heap s b)"
    and "\<forall>z\<in>set zs. region_id (heap s b) \<le> region_id (heap s z)"
  using assms by (auto simp: wf_def good_append_iff good_Cons_iff)

lemma release_keep:
  assumes wf: "wf s (ys @ b # zs)"
    and k: "(ys \<noteq> [] \<and> region_id (heap s (last ys)) = region_id (heap s b))
          \<or> (zs \<noteq> [] \<and> region_id (heap s (hd zs)) = region_id (heap s b))"
  shows "release_region e b s = Some (Some b, s)"
proof -
  from wf have ch: "chain s (ys @ b # zs)" by (simp add: wf_def)
  then have d: "distinct (ys @ b # zs)"
    and hy: "dll (heap s) None (g_head s) ys (prev_b (heap s b)) (Some b)"
    and hz: "dll (heap s) (Some b) (next_b (heap s b)) zs (g_tail s) None"
    by (simp_all add: chain_at)
  have 1: "\<not> (Some b = g_head s \<and> Some b = g_tail s)"
  proof (cases "ys = []")
    case True
    with k obtain n zs' where "zs = n # zs'" by (cases zs) auto
    with ch show ?thesis using chain_tail_next [of s ys b n zs'] by auto
  next
    case False
    then obtain ys' p where "ys = ys' @ [p]" by (cases ys rule: rev_cases) auto
    with ch show ?thesis using chain_head_prev [of s ys' p b zs] by auto
  qed
  have py: "ys = [] \<Longrightarrow> prev_b (heap s b) = None"
    using hy by simp
  have py': "ys \<noteq> [] \<Longrightarrow> prev_b (heap s b) = Some (last ys) \<and> g_head s \<noteq> Some b"
  proof -
    assume "ys \<noteq> []"
    then obtain ys' p where y: "ys = ys' @ [p]" by (cases ys rule: rev_cases) auto
    with ch show ?thesis
      using chain_snoc_prev(1) [of s ys' p b zs] chain_head_prev [of s ys' p b zs] by simp
  qed
  have nz: "zs = [] \<Longrightarrow> next_b (heap s b) = None"
    using hz by simp
  have nz': "zs \<noteq> [] \<Longrightarrow> next_b (heap s b) = Some (hd zs) \<and> g_tail s \<noteq> Some b"
  proof -
    assume "zs \<noteq> []"
    then obtain n zs' where z: "zs = n # zs'" by (cases zs) auto
    with ch hz show ?thesis
      using chain_tail_next [of s ys b n zs'] by simp
  qed
  show ?thesis
  proof (cases "ys = []")
    case True
    with k have z: "zs \<noteq> []" "region_id (heap s (hd zs)) = region_id (heap s b)" by auto
    with py [OF True] nz' [OF z(1)] 1 show ?thesis
      by (auto simp: release_region_def next_other_region_def prev_other_region_def
          nxt_def prv_def)
  next
    case False
    note y = py' [OF False]
    show ?thesis
    proof (cases "zs = []")
      case True
      with k False have "region_id (heap s (last ys)) = region_id (heap s b)" by auto
      with y nz [OF True] 1 show ?thesis
        by (auto simp: release_region_def next_other_region_def prev_other_region_def
            nxt_def prv_def)
    next
      case z: False
      with y nz' [OF z] k 1 show ?thesis
        by (auto simp: release_region_def next_other_region_def prev_other_region_def
            nxt_def prv_def)
    qed
  qed
qed

lemma release_remove:
  assumes wf: "wf s (ys @ b # zs)"
    and ry: "ys = [] \<or> region_id (heap s (last ys)) \<noteq> region_id (heap s b)"
    and rz: "zs = [] \<or> region_id (heap s (hd zs)) \<noteq> region_id (heap s b)"
  shows "\<exists>s'. release_region e b s = Some (if munmap_ok e then Some b else None, s')
     \<and> wf s' (ys @ zs) \<and> view s' = view s
     \<and> mapped s' = (if munmap_ok e then mapped s - {b ..< b + size_b (heap s b)} else mapped s)
     \<and> stderr s' = (if munmap_ok e then stderr s else stderr s @ [''munmap''])
     \<and> g_regions s' = g_regions s \<and> mem s' = mem s"
    (is ?G)
proof -
  from wf have ch: "chain s (ys @ b # zs)"
    and gd: "good (g_regions s) (mapped s) (map (view s) ys @ view s b # map (view s) zs)"
    by (simp_all add: wf_def)
  then have d: "distinct (ys @ b # zs)"
    and hy: "dll (heap s) None (g_head s) ys (prev_b (heap s b)) (Some b)"
    and hz: "dll (heap s) (Some b) (next_b (heap s b)) zs (g_tail s) None"
    by (simp_all add: chain_at)
  have "map (view s) ys = [] \<or> b_reg (last (map (view s) ys)) \<noteq> b_reg (view s b)"
    using ry by (auto simp: last_map)
  moreover have "map (view s) zs = [] \<or> b_reg (hd (map (view s) zs)) \<noteq> b_reg (view s b)"
    using rz by (auto simp: hd_map)
  ultimately have gr: "good (g_regions s) (mapped s - {b ..< b + size_b (heap s b)})
      (map (view s) (ys @ zs))"
    using good_remove [OF gd] by (simp add: b_end_def)
  have fin: "\<And>T. release_region e b s = Some (do_munmap e b T) \<Longrightarrow> chain T (ys @ zs)
      \<Longrightarrow> view T = view s \<Longrightarrow> mapped T = mapped s \<Longrightarrow> g_regions T = g_regions s
      \<Longrightarrow> size_b (heap T b) = size_b (heap s b) \<Longrightarrow> stderr T = stderr s \<Longrightarrow> mem T = mem s
      \<Longrightarrow> ?G"
  proof -
    fix T assume a: "release_region e b s = Some (do_munmap e b T)" "chain T (ys @ zs)"
      "view T = view s" "mapped T = mapped s" "g_regions T = g_regions s"
      "size_b (heap T b) = size_b (heap s b)" "stderr T = stderr s" "mem T = mem s"
    have "wf (snd (do_munmap e b T)) (ys @ zs)"
      using a(2) gr a(3-6) by (intro do_munmap_wf) simp_all
    moreover have "release_region e b s =
        Some (if munmap_ok e then Some b else None, snd (do_munmap e b T))"
      using a(1) by (simp add: do_munmap_def)
    ultimately show ?G
      using a(3-) by (intro exI [of _ "snd (do_munmap e b T)"]) simp
  qed
  show ?thesis
  proof (cases ys rule: rev_cases)
    case Nil
    with hy have hd: "g_head s = Some b" "prev_b (heap s b) = None" by simp_all
    show ?thesis
    proof (cases zs)
      case zn: Nil
      with hz have tl: "g_tail s = Some b" "next_b (heap s b) = None" by simp_all
      let ?T = "s\<lparr>g_head := None, g_tail := None\<rparr>"
      have "release_region e b s = Some (do_munmap e b ?T)"
        using hd tl by (simp add: release_region_def)
      moreover have "chain ?T (ys @ zs)"
        using Nil zn by (simp add: chain_def)
      ultimately show ?thesis
        by (rule fin) simp_all
    next
      case (Cons n zs')
      with hz have nn: "next_b (heap s b) = Some n"
        and hz': "dll (heap s) (Some n) (next_b (heap s n)) zs' (g_tail s) None"
        by simp_all
      from ch Cons have tl: "g_tail s \<noteq> Some b"
        using chain_tail_next [of s ys b n zs'] by simp
      from rz Cons have rn: "region_id (heap s n) \<noteq> region_id (heap s b)" by simp
      from d Cons have dn: "n \<noteq> b" "n \<notin> set zs'" "b \<notin> set zs'" by auto
      let ?T = "set_next b None (set_prev n None (s\<lparr>g_head := Some n\<rparr>))"
      have eq: "release_region e b s = Some (do_munmap e b ?T)"
        using hd nn tl rn
        by (simp add: release_region_def next_other_region_def prev_other_region_def
            nxt_def prv_def set_prev_at_def)
      have "dll (heap ?T) (Some n) (next_b (heap s n)) zs' (g_tail s) None
          = dll (heap s) (Some n) (next_b (heap s n)) zs' (g_tail s) None"
      proof (rule dll_cong)
        fix x assume "x \<in> set zs'"
        with dn have "x \<noteq> n" "x \<noteq> b" by auto
        then show "next_b (heap ?T x) = next_b (heap s x) \<and> prev_b (heap ?T x) = prev_b (heap s x)"
          by simp
      qed
      with hz' have "dll (heap ?T) None (g_head ?T) (n # zs') (g_tail ?T) None"
        using dn by simp
      then have "chain ?T (ys @ zs)"
        using Nil Cons d by (simp add: chain_def)
      with eq show ?thesis
        by (rule fin) (simp_all add: dn)
    qed
  next
    case (snoc ys' p)
    with ch have c: "prev_b (heap s b) = Some p" "next_b (heap s p) = Some b"
      "dll (heap s) None (g_head s) ys' (prev_b (heap s p)) (Some p)"
      using chain_snoc_prev [of s ys' p b zs] by simp_all
    from ch snoc have hd: "g_head s \<noteq> Some b"
      using chain_head_prev [of s ys' p b zs] by simp
    from ry snoc have rp: "region_id (heap s p) \<noteq> region_id (heap s b)" by simp
    from d snoc have dp: "p \<noteq> b" "p \<notin> set ys'" "b \<notin> set ys'" "p \<notin> set zs" by auto
    show ?thesis
    proof (cases zs)
      case Nil
      with hz have tl: "g_tail s = Some b" "next_b (heap s b) = None" by simp_all
      let ?T = "set_prev b None (set_next p None (s\<lparr>g_tail := Some p\<rparr>))"
      have eq: "release_region e b s = Some (do_munmap e b ?T)"
        using hd tl c(1) rp
        by (simp add: release_region_def next_other_region_def prev_other_region_def
            nxt_def prv_def set_next_at_def)
      have "dll (heap ?T) None (g_head s) ys' (prev_b (heap s p)) (Some p)
          = dll (heap s) None (g_head s) ys' (prev_b (heap s p)) (Some p)"
      proof (rule dll_cong)
        fix x assume "x \<in> set ys'"
        with dp have "x \<noteq> p" "x \<noteq> b" by auto
        then show "next_b (heap ?T x) = next_b (heap s x) \<and> prev_b (heap ?T x) = prev_b (heap s x)"
          by simp
      qed
      with c(3) have "dll (heap ?T) None (g_head ?T) ys' (prev_b (heap ?T p)) (Some p)"
        using dp by simp
      then have "chain ?T (ys' @ [p])"
        using d snoc by (simp add: chain_at)
      then have "chain ?T (ys @ zs)"
        using snoc Nil by simp
      with eq show ?thesis
        by (rule fin) (simp_all add: dp)
    next
      case (Cons n zs')
      with hz have nn: "next_b (heap s b) = Some n"
        and hz': "dll (heap s) (Some n) (next_b (heap s n)) zs' (g_tail s) None"
        by simp_all
      from ch Cons have tl: "g_tail s \<noteq> Some b"
        using chain_tail_next [of s ys b n zs'] by simp
      from rz Cons have rn: "region_id (heap s n) \<noteq> region_id (heap s b)" by simp
      from d Cons snoc have dn: "n \<noteq> b" "n \<notin> set zs'" "b \<notin> set zs'" "n \<noteq> p"
        "n \<notin> set ys'" "p \<notin> set zs'" by auto
      let ?T = "set_prev n (Some p) (set_next p (Some n) s)"
      have eq: "release_region e b s = Some (do_munmap e b ?T)"
        using hd tl c(1) nn rp rn dp dn
        by (simp add: release_region_def next_other_region_def prev_other_region_def
            nxt_def prv_def set_next_at_def set_prev_at_def)
      have "dll (heap ?T) None (g_head s) ys' (prev_b (heap s p)) (Some p)
          = dll (heap s) None (g_head s) ys' (prev_b (heap s p)) (Some p)"
      proof (rule dll_cong)
        fix x assume "x \<in> set ys'"
        with dp dn have "x \<noteq> p" "x \<noteq> n" by auto
        then show "next_b (heap ?T x) = next_b (heap s x) \<and> prev_b (heap ?T x) = prev_b (heap s x)"
          by simp
      qed
      with c(3) have 1: "dll (heap ?T) None (g_head ?T) ys' (prev_b (heap ?T p)) (Some p)"
        using dp dn by simp
      have "dll (heap ?T) (Some n) (next_b (heap s n)) zs' (g_tail s) None
          = dll (heap s) (Some n) (next_b (heap s n)) zs' (g_tail s) None"
      proof (rule dll_cong)
        fix x assume "x \<in> set zs'"
        with dn have "x \<noteq> n" "x \<noteq> p" by auto
        then show "next_b (heap ?T x) = next_b (heap s x) \<and> prev_b (heap ?T x) = prev_b (heap s x)"
          by simp
      qed
      with hz' have 2: "dll (heap ?T) (Some p) (next_b (heap ?T p)) (n # zs') (g_tail ?T) None"
        using dn dp by simp
      have "chain ?T (ys' @ p # n # zs')"
        using 1 2 d snoc Cons by (simp add: chain_at)
      then have "chain ?T (ys @ zs)"
        using snoc Cons by simp
      with eq show ?thesis
        by (rule fin) (simp_all add: dp dn)
    qed
  qed
qed

section \<open>The three stages of merging\<close>

lemma packed_append_iff:
  "packed (Y @ Z) \<longleftrightarrow> packed Y \<and> packed Z \<and> (Y = [] \<or> Z = [] \<or> not_both_free (last Y) (hd Z))"
  by (simp add: packed_def successively_append_iff)

lemma packed_Cons_iff:
  "packed (B # Z) \<longleftrightarrow> packed Z \<and> (Z = [] \<or> not_both_free B (hd Z))"
  by (auto simp: packed_def successively_Cons)

lemma packed_Nil [simp]: "packed []"
  by (simp add: packed_def)

lemma shrunk_refl: "shrunk s xs s xs"
  by (simp add: shrunk_def)

lemma shrunk_trans:
  "shrunk s xs s1 xs1 \<Longrightarrow> shrunk s1 xs1 s2 xs2 \<Longrightarrow> shrunk s xs s2 xs2"
proof -
  assume a: "shrunk s xs s1 xs1" and b: "shrunk s1 xs1 s2 xs2"
  have 1: "set xs2 \<subseteq> set xs"
    using a b unfolding shrunk_def by blast
  have 2: "\<forall>x\<in>set xs2. free_b (heap s2 x) = free_b (heap s x)"
    using a b unfolding shrunk_def by (metis subsetD)
  have 3: "\<forall>x\<in>set xs - set xs2. free_b (heap s x)"
    using a b unfolding shrunk_def by (metis DiffD1 DiffD2 DiffI)
  have 4: "sorted_wrt (<) xs \<longrightarrow> sorted_wrt (<) xs2"
    using a b unfolding shrunk_def by blast
  have 5: "mem s2 = mem s" "g_regions s2 = g_regions s"
    using a b unfolding shrunk_def by simp_all
  show ?thesis
    using 1 2 3 4 5 unfolding shrunk_def by blast
qed

lemma stage_next:
  assumes wf: "wf s (ys @ b # zs)" and fb: "free_b (heap s b)"
    and pz: "packed (map (view s) zs)"
  shows "\<exists>s' zs'. merge_with_next b s = Some s' \<and> wf s' (ys @ b # zs')
      \<and> packed (map (view s') (b # zs'))
      \<and> shrunk s (ys @ b # zs) s' (ys @ b # zs')
      \<and> (\<forall>x. x \<noteq> b \<longrightarrow> view s' x = view s x)
      \<and> free_b (heap s' b) \<and> region_id (heap s' b) = region_id (heap s b)
      \<and> mapped s' = mapped s \<and> stderr s' = stderr s"
proof -
  from wf have ch: "chain s (ys @ b # zs)" by (simp add: wf_def)
  then have d: "distinct (ys @ b # zs)"
    and hz: "dll (heap s) (Some b) (next_b (heap s b)) zs (g_tail s) None"
    by (simp_all add: chain_at)
  have keep: "packed (map (view s) (b # zs)) \<Longrightarrow> merge_with_next b s = Some s \<Longrightarrow> ?thesis"
    using wf fb by (intro exI [of _ s] exI [of _ zs]) (simp add: shrunk_refl)
  show ?thesis
  proof (cases zs)
    case Nil
    with hz have "next_b (heap s b) = None" by simp
    then have "merge_with_next b s = Some s" by (simp add: merge_with_next_noop)
    with Nil keep show ?thesis by (simp add: packed_Cons_iff)
  next
    case (Cons n zs1)
    with hz have nb: "next_b (heap s b) = Some n" by simp
    show ?thesis
    proof (cases "free_b (heap s n) \<and> region_id (heap s n) = region_id (heap s b)")
      case False
      with nb have "merge_with_next b s = Some s" by (simp add: merge_with_next_noop)
      moreover have "packed (map (view s) (b # zs))"
        using pz Cons False by (auto simp: packed_Cons_iff not_both_free_def)
      ultimately show ?thesis by (rule keep [rotated])
    next
      case True
      then have fr: "free_b (heap s n)" and rg: "region_id (heap s n) = region_id (heap s b)"
        by simp_all
      from wf Cons have wf': "wf s (ys @ b # n # zs1)" by simp
      from merge_next_wf [OF wf' fr rg] obtain s' where
        s': "merge_with_next b s = Some s'" "wf s' (ys @ b # zs1)"
        "view s' b = \<lparr>b_at = b, b_len = size_b (heap s b) + size_b (heap s n),
                       b_reg = region_id (heap s b), b_free = free_b (heap s b)\<rparr>"
        "\<forall>x. x \<noteq> b \<longrightarrow> view s' x = view s x"
        "mapped s' = mapped s" "g_regions s' = g_regions s" "mem s' = mem s"
        "stderr s' = stderr s"
        by blast
      from s'(3) have fb': "free_b (heap s' b) = free_b (heap s b)"
        and rb': "region_id (heap s' b) = region_id (heap s b)"
        by (simp_all add: view_def)
      have fx: "\<And>x. x \<noteq> b \<Longrightarrow> free_b (heap s' x) = free_b (heap s x)"
        using s'(4) by (simp add: view_def)
      from d Cons have dz: "b \<notin> set zs1" by auto
      have mz: "map (view s') zs1 = map (view s) zs1"
        using s'(4) dz by (intro map_view_same) auto
      have pk: "packed (map (view s') (b # zs1))"
      proof -
        from pz Cons have p1: "packed (map (view s) zs1)"
          and j: "zs1 = [] \<or> not_both_free (view s n) (hd (map (view s) zs1))"
          by (auto simp: packed_Cons_iff)
        have "zs1 = [] \<or> not_both_free (view s' b) (hd (map (view s) zs1))"
          using j fr rg s'(3) by (auto simp: not_both_free_def)
        with p1 show ?thesis
          unfolding list.map packed_Cons_iff mz by simp
      qed
      have sh: "shrunk s (ys @ b # zs) s' (ys @ b # zs1)"
        unfolding shrunk_def
      proof (intro conjI)
        show "set (ys @ b # zs1) \<subseteq> set (ys @ b # zs)" using Cons by auto
        show "\<forall>x\<in>set (ys @ b # zs1). free_b (heap s' x) = free_b (heap s x)"
          using fx fb' by (metis)
        show "\<forall>x\<in>set (ys @ b # zs) - set (ys @ b # zs1). free_b (heap s x)"
          using Cons fr by auto
        show "sorted_wrt (<) (ys @ b # zs) \<longrightarrow> sorted_wrt (<) (ys @ b # zs1)"
          using Cons by (auto simp: sorted_wrt_append)
      qed (simp_all add: s')
      show ?thesis
        using s'(1,2,4,5,8) pk sh fb fb' rb'
        by (intro exI [of _ s'] exI [of _ zs1]) simp
    qed
  qed
qed

lemma stage_prev:
  assumes wf: "wf s (ys @ b # zs)" and fb: "free_b (heap s b)"
    and py: "packed (map (view s) ys)" and pz: "packed (map (view s) (b # zs))"
  shows "\<exists>s' xs'. merge_with_prev b s = Some s' \<and> wf s' xs'
      \<and> packed (map (view s') xs')
      \<and> shrunk s (ys @ b # zs) s' xs'
      \<and> mapped s' = mapped s \<and> stderr s' = stderr s
      \<and> ((s' = s \<and> xs' = ys @ b # zs) \<or> (b \<notin> set xs' \<and> \<not> prev_other_region s' b))"
proof -
  from wf have ch: "chain s (ys @ b # zs)" by (simp add: wf_def)
  then have d: "distinct (ys @ b # zs)"
    and hy: "dll (heap s) None (g_head s) ys (prev_b (heap s b)) (Some b)"
    by (simp_all add: chain_at)
  have keep: "packed (map (view s) (ys @ b # zs)) \<Longrightarrow> merge_with_prev b s = Some s \<Longrightarrow> ?thesis"
    using wf by (intro exI [of _ s] exI [of _ "ys @ b # zs"]) (simp add: shrunk_refl)
  show ?thesis
  proof (cases ys rule: rev_cases)
    case Nil
    with hy have "prev_b (heap s b) = None" by simp
    then have "merge_with_prev b s = Some s" by (simp add: merge_with_prev_noop)
    with Nil keep pz show ?thesis by simp
  next
    case (snoc ys1 p)
    with ch have pb: "prev_b (heap s b) = Some p"
      using chain_snoc_prev(1) [of s ys1 p b zs] by simp
    show ?thesis
    proof (cases "free_b (heap s p) \<and> region_id (heap s p) = region_id (heap s b)")
      case False
      with pb have "merge_with_prev b s = Some s" by (simp add: merge_with_prev_noop)
      moreover have "packed (map (view s) (ys @ b # zs))"
        using py pz snoc False fb
        by (auto simp: packed_append_iff packed_Cons_iff not_both_free_def last_map)
      ultimately show ?thesis by (rule keep [rotated])
    next
      case True
      then have fr: "free_b (heap s p)" and rg: "region_id (heap s p) = region_id (heap s b)"
        by simp_all
      from wf snoc have wf': "wf s (ys1 @ p # b # zs)" by simp
      from merge_prev_wf [OF wf' fr rg] obtain s' where
        s': "merge_with_prev b s = Some s'" "wf s' (ys1 @ p # zs)"
        "view s' p = \<lparr>b_at = p, b_len = size_b (heap s p) + size_b (heap s b),
                       b_reg = region_id (heap s p), b_free = free_b (heap s p)\<rparr>"
        "\<forall>x. x \<noteq> p \<longrightarrow> view s' x = view s x"
        "\<not> prev_other_region s' b"
        "mapped s' = mapped s" "g_regions s' = g_regions s" "mem s' = mem s"
        "stderr s' = stderr s"
        by blast
      from s'(3) have fp': "free_b (heap s' p) = free_b (heap s p)"
        by (simp add: view_def)
      have fx: "\<And>x. x \<noteq> p \<Longrightarrow> free_b (heap s' x) = free_b (heap s x)"
        using s'(4) by (simp add: view_def)
      from d snoc have dz: "p \<notin> set zs" "p \<notin> set ys1" "b \<notin> set (ys1 @ p # zs)" by auto
      have mz: "map (view s') zs = map (view s) zs"
        using s'(4) dz by (intro map_view_same) auto
      have my: "map (view s') ys1 = map (view s) ys1"
        using s'(4) dz by (intro map_view_same) auto
      have pk: "packed (map (view s') (ys1 @ p # zs))"
      proof -
        from py snoc have p1: "packed (map (view s) ys1)"
          and j1: "ys1 = [] \<or> not_both_free (last (map (view s) ys1)) (view s p)"
          by (auto simp: packed_append_iff packed_Cons_iff)
        from pz have p2: "packed (map (view s) zs)"
          and j2: "zs = [] \<or> not_both_free (view s b) (hd (map (view s) zs))"
          by (auto simp: packed_Cons_iff)
        have j1': "ys1 = [] \<or> not_both_free (last (map (view s) ys1)) (view s' p)"
          using j1 s'(3) by (auto simp: not_both_free_def)
        have j2': "zs = [] \<or> not_both_free (view s' p) (hd (map (view s) zs))"
          using j2 s'(3) fb rg by (auto simp: not_both_free_def)
        show ?thesis
          unfolding map_append list.map packed_append_iff packed_Cons_iff mz my
          using p1 p2 j1' j2' by simp
      qed
      have sh: "shrunk s (ys @ b # zs) s' (ys1 @ p # zs)"
        unfolding shrunk_def
      proof (intro conjI)
        show "set (ys1 @ p # zs) \<subseteq> set (ys @ b # zs)" using snoc by auto
        show "\<forall>x\<in>set (ys1 @ p # zs). free_b (heap s' x) = free_b (heap s x)"
          using fx fp' by metis
        show "\<forall>x\<in>set (ys @ b # zs) - set (ys1 @ p # zs). free_b (heap s x)"
          using snoc fb by auto
        show "sorted_wrt (<) (ys @ b # zs) \<longrightarrow> sorted_wrt (<) (ys1 @ p # zs)"
          using snoc by (auto simp: sorted_wrt_append)
      qed (simp_all add: s')
      show ?thesis
        using s'(1,2,5,6,9) pk sh dz(3)
        by (intro exI [of _ s'] exI [of _ "ys1 @ p # zs"]) simp
    qed
  qed
qed

lemma stage_release:
  assumes wf: "wf s (ys @ b # zs)" and fb: "free_b (heap s b)"
    and pk: "packed (map (view s) (ys @ b # zs))"
  shows "\<exists>r s' xs'. release_region e b s = Some (r, s') \<and> wf s' xs'
      \<and> packed (map (view s') xs')
      \<and> shrunk s (ys @ b # zs) s' xs'
      \<and> ((s' = s \<and> xs' = ys @ b # zs \<and> r = Some b)
         \<or> (b \<notin> set xs'
            \<and> r = (if munmap_ok e then Some b else None)
            \<and> mapped s' = (if munmap_ok e then mapped s - {b ..< b + size_b (heap s b)}
                           else mapped s)
            \<and> stderr s' = (if munmap_ok e then stderr s else stderr s @ [''munmap''])))"
proof (cases "(ys = [] \<or> region_id (heap s (last ys)) \<noteq> region_id (heap s b))
    \<and> (zs = [] \<or> region_id (heap s (hd zs)) \<noteq> region_id (heap s b))")
  case False
  then have "release_region e b s = Some (Some b, s)"
    by (intro release_keep [OF wf]) auto
  with wf pk show ?thesis
    by (intro exI [of _ "Some b"] exI [of _ s] exI [of _ "ys @ b # zs"]) (simp add: shrunk_refl)
next
  case True
  then have ry: "ys = [] \<or> region_id (heap s (last ys)) \<noteq> region_id (heap s b)"
    and rz: "zs = [] \<or> region_id (heap s (hd zs)) \<noteq> region_id (heap s b)"
    by simp_all
  from release_remove [OF wf ry rz, of e] obtain s' where
    s': "release_region e b s = Some (if munmap_ok e then Some b else None, s')"
    "wf s' (ys @ zs)" "view s' = view s"
    "mapped s' = (if munmap_ok e then mapped s - {b ..< b + size_b (heap s b)} else mapped s)"
    "stderr s' = (if munmap_ok e then stderr s else stderr s @ [''munmap''])"
    "g_regions s' = g_regions s" "mem s' = mem s"
    by blast
  from wf have d: "distinct (ys @ b # zs)" by (simp add: wf_def chain_at)
  have p': "packed (map (view s') (ys @ zs))"
  proof -
    from pk have p1: "packed (map (view s) ys)" and p2: "packed (map (view s) zs)"
      by (auto simp: packed_append_iff packed_Cons_iff)
    have "ys = [] \<or> zs = [] \<or> not_both_free (view s (last ys)) (view s (hd zs))"
    proof (cases "ys = [] \<or> zs = []")
      case False
      then have "last ys \<in> set ys" "hd zs \<in> set zs" by auto
      with wf_rid [OF wf] have "region_id (heap s (last ys)) \<le> region_id (heap s b)"
        "region_id (heap s b) \<le> region_id (heap s (hd zs))" by auto
      with ry rz False have "region_id (heap s (last ys)) < region_id (heap s (hd zs))"
        by auto
      then show ?thesis by (simp add: not_both_free_def)
    qed auto
    then have "ys = [] \<or> zs = []
        \<or> not_both_free (last (map (view s) ys)) (hd (map (view s) zs))"
      by (cases "ys = []"; cases "zs = []") (simp_all add: last_map hd_map)
    with p1 p2 show ?thesis
      unfolding s'(3) by (simp add: packed_append_iff)
  qed
  have fx: "\<And>x. free_b (heap s' x) = free_b (heap s x)"
    using s'(3) by (metis view_sel(4))
  have sh: "shrunk s (ys @ b # zs) s' (ys @ zs)"
    unfolding shrunk_def
  proof (intro conjI)
    show "set (ys @ zs) \<subseteq> set (ys @ b # zs)" by auto
    show "\<forall>x\<in>set (ys @ zs). free_b (heap s' x) = free_b (heap s x)"
      using fx by simp
    show "\<forall>x\<in>set (ys @ b # zs) - set (ys @ zs). free_b (heap s x)"
      using fb by auto
    show "sorted_wrt (<) (ys @ b # zs) \<longrightarrow> sorted_wrt (<) (ys @ zs)"
      by (auto simp: sorted_wrt_append)
  qed (simp_all add: s')
  from d have "b \<notin> set (ys @ zs)" by auto
  with s' p' sh show ?thesis
    by (intro exI [of _ "if munmap_ok e then Some b else None"] exI [of _ s']
        exI [of _ "ys @ zs"]) simp
qed

section \<open>Releasing a block\<close>

lemma chain_set_flag [simp]:
  "chain (set_free a f s) xs = chain s xs"
  "chain (set_size a v s) xs = chain s xs"
  "chain (set_region a r s) xs = chain s xs"
  "chain (set_name a nm s) xs = chain s xs"
proof -
  have "\<And>pp p l q. dll (heap (set_free a f s)) pp p xs l q = dll (heap s) pp p xs l q"
    "\<And>pp p l q. dll (heap (set_size a v s)) pp p xs l q = dll (heap s) pp p xs l q"
    "\<And>pp p l q. dll (heap (set_region a r s)) pp p xs l q = dll (heap s) pp p xs l q"
    "\<And>pp p l q. dll (heap (set_name a nm s)) pp p xs l q = dll (heap s) pp p xs l q"
    by (rule dll_cong, simp)+
  then show "chain (set_free a f s) xs = chain s xs"
    "chain (set_size a v s) xs = chain s xs"
    "chain (set_region a r s) xs = chain s xs"
    "chain (set_name a nm s) xs = chain s xs"
    by (simp_all add: chain_def)
qed

lemma good_flag:
  "good G M (map (\<lambda>b. b\<lparr>b_free := f\<rparr>) bs) = good G M bs"
  by (simp add: good_def list_all_iff successively_map sorted_wrt_map fits_memory_def
      contiguous_def [abs_def] apart_def [abs_def] b_end_def)

lemma good_flag_at:
  "good G M (Y @ B\<lparr>b_free := f\<rparr> # Z) = good G M (Y @ B # Z)"
proof -
  have "good G M (Y @ B\<lparr>b_free := f\<rparr> # Z)
      = good G M (map (\<lambda>b. b\<lparr>b_free := False\<rparr>) (Y @ B\<lparr>b_free := f\<rparr> # Z))"
    by (simp only: good_flag)
  also have "map (\<lambda>b. b\<lparr>b_free := False\<rparr>) (Y @ B\<lparr>b_free := f\<rparr> # Z)
      = map (\<lambda>b. b\<lparr>b_free := False\<rparr>) (Y @ B # Z)" by simp
  also have "good G M \<dots> = good G M (Y @ B # Z)" by (simp only: good_flag)
  finally show ?thesis .
qed

lemma map_view_set_free:
  "b \<notin> set ys \<Longrightarrow> b \<notin> set zs \<Longrightarrow>
   map (view (set_free b f s)) (ys @ b # zs)
     = map (view s) ys @ (view s b)\<lparr>b_free := f\<rparr> # map (view s) zs"
  by (rule map_view_at) auto

lemma wf_set_free:
  assumes "wf s (ys @ b # zs)"
  shows "wf (set_free b f s) (ys @ b # zs)"
proof -
  from assms have d: "b \<notin> set ys" "b \<notin> set zs" by (auto simp: wf_def chain_def)
  show ?thesis
    using assms unfolding wf_def map_view_set_free [OF d] good_flag_at
    by simp
qed

lemma data_block:
  assumes "wf s xs" "b \<in> set xs"
  shows "data_of b = b + 100" "block_of (data_of b) = b"
proof -
  from wf_bounds [OF assms] have "104 \<le> size_b (heap s b)" "b + size_b (heap s b) \<le> 2 ^ 64"
    by simp_all
  then have lt: "b + 100 < (2::nat) ^ 64" by linarith
  then show 1: "data_of b = b + 100" by (simp add: data_of_def header_size_def)
  have "(b + 100 + 2 ^ 64 - 100) mod 2 ^ 64 = (b + 2 ^ 64) mod (2::nat) ^ 64" by simp
  also have "\<dots> = b" using lt by simp
  finally show "block_of (data_of b) = b" unfolding 1 block_of_def header_size_def .
qed

lemma data_of_inj:
  assumes "wf s xs"
  shows "inj_on data_of (set xs)"
  by (rule inj_onI) (simp add: data_block(1) [OF assms])

lemma merge_block_inv:
  assumes wf: "wf s (ys @ b # zs)" and fb: "free_b (heap s b)"
    and py: "packed (map (view s) ys)" and pz: "packed (map (view s) zs)"
  shows "\<exists>r s' xs'. merge_block e b s = Some (r, s') \<and> wf s' xs'
      \<and> packed (map (view s') xs')
      \<and> shrunk s (ys @ b # zs) s' xs'
      \<and> (b \<in> set xs' \<longrightarrow> free_b (heap s' b))
      \<and> (r = None \<longleftrightarrow> stderr s' \<noteq> stderr s)
      \<and> (r = None \<longrightarrow> b \<notin> set xs' \<and> \<not> munmap_ok e \<and> mapped s' = mapped s
            \<and> stderr s' = stderr s @ [''munmap''])
      \<and> (r \<noteq> None \<longrightarrow> r = Some b \<and> mapped s' \<subseteq> mapped s)"
proof -
  from stage_next [OF wf fb pz] obtain s1 zs1 where
    1: "merge_with_next b s = Some s1" "wf s1 (ys @ b # zs1)"
    "packed (map (view s1) (b # zs1))" "shrunk s (ys @ b # zs) s1 (ys @ b # zs1)"
    "\<forall>x. x \<noteq> b \<longrightarrow> view s1 x = view s x" "free_b (heap s1 b)"
    "mapped s1 = mapped s" "stderr s1 = stderr s"
    by blast
  from wf have "b \<notin> set ys" by (auto simp: wf_def chain_def)
  then have my: "map (view s1) ys = map (view s) ys"
    using 1(5) by (intro map_view_same) auto
  from py have py1: "packed (map (view s1) ys)" unfolding my .
  from stage_prev [OF 1(2) 1(6) py1 1(3)] obtain s2 xs2 where
    2: "merge_with_prev b s1 = Some s2" "wf s2 xs2" "packed (map (view s2) xs2)"
    "shrunk s1 (ys @ b # zs1) s2 xs2" "mapped s2 = mapped s1" "stderr s2 = stderr s1"
    "(s2 = s1 \<and> xs2 = ys @ b # zs1) \<or> (b \<notin> set xs2 \<and> \<not> prev_other_region s2 b)"
    by blast
  have sh2: "shrunk s (ys @ b # zs) s2 xs2"
    by (rule shrunk_trans [OF 1(4) 2(4)])
  have mb: "merge_block e b s = release_region e b s2"
    by (simp add: merge_block_def 1(1) 2(1))
  from 2(7) show ?thesis
  proof
    assume a: "b \<notin> set xs2 \<and> \<not> prev_other_region s2 b"
    from 2(2) have "chain s2 xs2" by (simp add: wf_def)
    with a have "release_region e b s2 = Some (Some b, s2)"
      by (intro release_region_absent) auto
    with mb 2 sh2 a 1 show ?thesis
      by (intro exI [of _ "Some b"] exI [of _ s2] exI [of _ xs2]) simp
  next
    assume a: "s2 = s1 \<and> xs2 = ys @ b # zs1"
    with 2 have w: "wf s1 (ys @ b # zs1)" and p: "packed (map (view s1) (ys @ b # zs1))"
      by simp_all
    from stage_release [OF w 1(6) p, of e] obtain r s3 xs3 where
      3: "release_region e b s1 = Some (r, s3)" "wf s3 xs3" "packed (map (view s3) xs3)"
      "shrunk s1 (ys @ b # zs1) s3 xs3"
      "(s3 = s1 \<and> xs3 = ys @ b # zs1 \<and> r = Some b)
         \<or> (b \<notin> set xs3
            \<and> r = (if munmap_ok e then Some b else None)
            \<and> mapped s3 = (if munmap_ok e then mapped s1 - {b ..< b + size_b (heap s1 b)}
                           else mapped s1)
            \<and> stderr s3 = (if munmap_ok e then stderr s1 else stderr s1 @ [''munmap'']))"
      by blast
    have sh3: "shrunk s (ys @ b # zs) s3 xs3"
      by (rule shrunk_trans [OF 1(4) 3(4)])
    have rest: "(b \<in> set xs3 \<longrightarrow> free_b (heap s3 b))
      \<and> (r = None \<longleftrightarrow> stderr s3 \<noteq> stderr s)
      \<and> (r = None \<longrightarrow> b \<notin> set xs3 \<and> \<not> munmap_ok e \<and> mapped s3 = mapped s
            \<and> stderr s3 = stderr s @ [''munmap''])
      \<and> (r \<noteq> None \<longrightarrow> r = Some b \<and> mapped s3 \<subseteq> mapped s)"
      using 3(5) 1(6,7,8) by (elim disjE conjE) (auto split: if_splits)
    from mb a 3(1) have "merge_block e b s = Some (r, s3)" by simp
    with 3(2,3) sh3 rest show ?thesis
      by (intro exI [of _ r] exI [of _ s3] exI [of _ xs3]) auto
  qed
qed

lemma free_inv:
  assumes iv: "inv asc (s, live) xs" and al: "a \<in> live"
  shows "\<exists>r s' xs'. merge_block e (block_of a) (set_free (block_of a) True s) = Some (r, s')
      \<and> free e (Some a) s = Some s'
      \<and> inv asc (s', live - {a}) xs'
      \<and> set xs' \<subseteq> set xs \<and> mem s' = mem s \<and> g_regions s' = g_regions s
      \<and> block_of a \<in> set xs \<and> \<not> free_b (heap s (block_of a))
      \<and> (r = None \<longleftrightarrow> stderr s' \<noteq> stderr s)
      \<and> (r = None \<longrightarrow> block_of a \<notin> set xs' \<and> \<not> munmap_ok e \<and> mapped s' = mapped s
            \<and> stderr s' = stderr s @ [''munmap''])
      \<and> (r \<noteq> None \<longrightarrow> mapped s' \<subseteq> mapped s)"
proof -
  from iv have wf: "wf s xs" and pk: "packed (map (view s) xs)"
    and lv: "live = data_of ` {x \<in> set xs. \<not> free_b (heap s x)}"
    and asc: "asc \<longrightarrow> sorted_wrt (<) xs"
    by (simp_all add: inv_def live_ok_def)
  from al lv obtain b where b: "b \<in> set xs" "\<not> free_b (heap s b)" "a = data_of b" by auto
  from data_block(2) [OF wf b(1)] b(3) have ba: "block_of a = b" by simp
  from b(1) obtain ys zs where xs: "xs = ys @ b # zs" by (auto simp: in_set_conv_decomp)
  from wf xs have d: "b \<notin> set ys" "b \<notin> set zs" by (auto simp: wf_def chain_def)
  let ?s1 = "set_free b True s"
  from wf xs have wf1: "wf ?s1 (ys @ b # zs)" by (simp add: wf_set_free)
  have fb1: "free_b (heap ?s1 b)" by simp
  from pk xs have p0: "packed (map (view s) ys)" "packed (map (view s) zs)"
    by (auto simp: packed_append_iff packed_Cons_iff)
  have my: "map (view ?s1) ys = map (view s) ys" and mz: "map (view ?s1) zs = map (view s) zs"
    using d by (auto intro!: map_view_same)
  have py: "packed (map (view ?s1) ys)" unfolding my by (rule p0)
  have pz: "packed (map (view ?s1) zs)" unfolding mz by (rule p0)
  from merge_block_inv [OF wf1 fb1 py pz, of e] obtain r s' xs' where
    m: "merge_block e b ?s1 = Some (r, s')" "wf s' xs'" "packed (map (view s') xs')"
    "shrunk ?s1 (ys @ b # zs) s' xs'" "b \<in> set xs' \<longrightarrow> free_b (heap s' b)"
    "r = None \<longleftrightarrow> stderr s' \<noteq> stderr ?s1"
    "r = None \<longrightarrow> b \<notin> set xs' \<and> \<not> munmap_ok e \<and> mapped s' = mapped ?s1
            \<and> stderr s' = stderr ?s1 @ [''munmap'']"
    "r \<noteq> None \<longrightarrow> r = Some b \<and> mapped s' \<subseteq> mapped ?s1"
    by blast
  from m(4) xs have sh: "shrunk ?s1 xs s' xs'" by simp
  have sub: "set xs' \<subseteq> set xs"
    and keep: "\<forall>x\<in>set xs'. free_b (heap s' x) = free_b (heap ?s1 x)"
    and gone: "\<forall>x\<in>set xs - set xs'. free_b (heap ?s1 x)"
    and so: "sorted_wrt (<) xs \<longrightarrow> sorted_wrt (<) xs'"
    using sh unfolding shrunk_def by blast+
  have mm: "mem s' = mem s" "g_regions s' = g_regions s"
    using sh by (simp_all add: shrunk_def)
  have used: "{x \<in> set xs'. \<not> free_b (heap s' x)} = {x \<in> set xs. \<not> free_b (heap s x)} - {b}"
  proof (intro set_eqI iffI)
    fix x assume "x \<in> {x \<in> set xs'. \<not> free_b (heap s' x)}"
    then have x: "x \<in> set xs'" "\<not> free_b (heap s' x)" by simp_all
    with keep have "\<not> free_b (heap ?s1 x)" by simp
    then have "x \<noteq> b" "\<not> free_b (heap s x)" by (auto split: if_splits)
    with x sub show "x \<in> {x \<in> set xs. \<not> free_b (heap s x)} - {b}" by auto
  next
    fix x assume "x \<in> {x \<in> set xs. \<not> free_b (heap s x)} - {b}"
    then have x: "x \<in> set xs" "\<not> free_b (heap s x)" "x \<noteq> b" by simp_all
    then have nf: "\<not> free_b (heap ?s1 x)" by simp
    with gone x(1) have "x \<in> set xs'" by blast
    with keep nf show "x \<in> {x \<in> set xs'. \<not> free_b (heap s' x)}" by simp
  qed
  have "data_of ` ({x \<in> set xs. \<not> free_b (heap s x)} - {b})
      = data_of ` {x \<in> set xs. \<not> free_b (heap s x)} - data_of ` {b}"
    using data_of_inj [OF wf] b(1)
    by (intro inj_on_image_set_diff [where C = "set xs"]) auto
  with lv b(3) used have lv': "live - {a} = data_of ` {x \<in> set xs'. \<not> free_b (heap s' x)}"
    by simp
  have iv': "inv asc (s', live - {a}) xs'"
    using m(2,3) lv' asc so by (simp add: inv_def live_ok_def)
  have fr: "free e (Some a) s = Some s'"
    using m(1) ba by (simp add: free_def)
  show ?thesis
    using m(1) fr iv' sub mm b(1,2) m(6,7,8) unfolding ba
    by (intro exI [of _ r] exI [of _ s'] exI [of _ xs']) simp
qed

section \<open>Taking a block for a request\<close>

lemma split_block_refuse:
  assumes "size_b (heap s b) < 2 ^ 64" "sz \<le> size_b (heap s b)"
    "sz < 104 \<or> size_b (heap s b) - sz < 104"
  shows "split_block b sz s = Some (None, s)"
  using assms
  by (auto simp: split_block_def Let_def size_diff_eq header_size_def BLOCK_ALIGN_def)

lemma wf_above:
  assumes wf: "wf s (ys @ b # zs)" and z: "z \<in> set zs" and lt: "b < z"
  shows "b + size_b (heap s b) \<le> z"
proof -
  from wf z have "apart (view s b) (view s z)"
    by (auto simp: wf_def good_append_iff good_Cons_iff)
  moreover from wf z have "0 < size_b (heap s z)"
    using wf_bounds(2) [of s "ys @ b # zs" z] by simp
  ultimately show ?thesis using lt by (auto simp: apart_def b_end_def)
qed

lemma packed_take:
  assumes "packed (Y @ B # Z)"
  shows "packed (Y @ B\<lparr>b_free := False\<rparr> # Z)"
  using assms by (auto simp: packed_append_iff packed_Cons_iff not_both_free_def)

lemma packed_take_split:
  assumes "packed (Y @ B # Z)" "b_free B"
  shows "packed (Y @ \<lparr>b_at = b_at B, b_len = l1, b_reg = b_reg B, b_free = False\<rparr>
           # \<lparr>b_at = a2, b_len = l2, b_reg = b_reg B, b_free = True\<rparr> # Z)"
  using assms by (auto simp: packed_append_iff packed_Cons_iff not_both_free_def)

lemma take_block:
  assumes wf: "wf s (ys @ b # zs)" and fb: "free_b (heap s b)"
    and pk: "packed (map (view s) (ys @ b # zs))" and le: "sz \<le> size_b (heap s b)"
  shows "\<exists>r s1 xs'. split_block b sz s = Some (r, s1)
      \<and> wf (set_free b False s1) xs'
      \<and> packed (map (view (set_free b False s1)) xs')
      \<and> {x \<in> set xs'. \<not> free_b (heap (set_free b False s1) x)}
          = insert b {x \<in> set (ys @ b # zs). \<not> free_b (heap s x)}
      \<and> (sorted_wrt (<) (ys @ b # zs) \<longrightarrow> sorted_wrt (<) xs')
      \<and> mem s1 = mem s \<and> mapped s1 = mapped s \<and> stderr s1 = stderr s
      \<and> g_regions s1 = g_regions s
      \<and> sz \<le> size_b (heap s1 b)
      \<and> (case r of
           None \<Rightarrow> s1 = s \<and> xs' = ys @ b # zs
              \<and> (sz < 104 \<or> size_b (heap s b) - sz < 104)
         | Some nb \<Rightarrow> nb = b + sz \<and> xs' = ys @ b # nb # zs \<and> 104 \<le> sz
              \<and> size_b (heap s1 b) = sz \<and> 104 \<le> size_b (heap s1 nb)
              \<and> size_b (heap s1 nb) = size_b (heap s b) - sz
              \<and> free_b (heap s1 nb)
              \<and> region_id (heap s1 nb) = region_id (heap s b))"
proof -
  have bnd: "size_b (heap s b) < 2 ^ 64" "0 < b"
    using wf_bounds(1,3) [OF wf, of b] by simp_all
  from wf have d: "b \<notin> set ys" "b \<notin> set zs" by (auto simp: wf_def chain_def)
  show ?thesis
  proof (cases "sz < 104 \<or> size_b (heap s b) - sz < 104")
    case True
    with bnd le have sp: "split_block b sz s = Some (None, s)"
      by (intro split_block_refuse) auto
    have w: "wf (set_free b False s) (ys @ b # zs)" using wf by (rule wf_set_free)
    have p: "packed (map (view (set_free b False s)) (ys @ b # zs))"
      unfolding map_view_set_free [OF d]
      using pk by (intro packed_take) simp
    have u: "{x \<in> set (ys @ b # zs). \<not> free_b (heap (set_free b False s) x)}
          = insert b {x \<in> set (ys @ b # zs). \<not> free_b (heap s x)}"
      by auto
    show ?thesis
      using sp w p u le True
      by (intro exI [of _ None] exI [of _ s] exI [of _ "ys @ b # zs"]) simp
  next
    case False
    then have sz: "104 \<le> sz" "sz + 104 \<le> size_b (heap s b)" using le by auto
    from split_block_wf [OF wf fb sz] obtain s1 where
      s1: "split_block b sz s = Some (Some (b + sz), s1)"
      "wf s1 (ys @ b # (b + sz) # zs)"
      "\<forall>x. x \<noteq> b \<longrightarrow> x \<noteq> b + sz \<longrightarrow> view s1 x = view s x"
      "view s1 b = \<lparr>b_at = b, b_len = sz, b_reg = region_id (heap s b), b_free = True\<rparr>"
      "view s1 (b + sz) = \<lparr>b_at = b + sz, b_len = size_b (heap s b) - sz,
                             b_reg = region_id (heap s b), b_free = True\<rparr>"
      "mapped s1 = mapped s" "g_regions s1 = g_regions s" "mem s1 = mem s"
      "stderr s1 = stderr s"
      by blast
    let ?t = "set_free b False s1" and ?xs = "ys @ b # (b + sz) # zs"
    from s1(2) have d1: "distinct ?xs" by (simp add: wf_def chain_def)
    then have nb: "b + sz \<notin> set ys" "b + sz \<notin> set zs" "b + sz \<noteq> b" by auto
    have w: "wf ?t ?xs" using s1(2) by (rule wf_set_free)
    have vy: "map (view ?t) ys = map (view s) ys"
      using s1(3) d nb by (intro map_view_same) auto
    have vz: "map (view ?t) zs = map (view s) zs"
      using s1(3) d nb by (intro map_view_same) auto
    have vb: "view ?t b = \<lparr>b_at = b_at (view s b), b_len = sz, b_reg = b_reg (view s b),
                b_free = False\<rparr>"
      using s1(4) by simp
    have vn: "view ?t (b + sz) = \<lparr>b_at = b + sz, b_len = size_b (heap s b) - sz,
                b_reg = b_reg (view s b), b_free = True\<rparr>"
      using s1(5) nb by simp
    have p: "packed (map (view ?t) ?xs)"
      unfolding map_append list.map vy vz vb vn
      using pk fb by (intro packed_take_split) simp_all
    have fl: "\<And>x. x \<noteq> b \<Longrightarrow> x \<noteq> b + sz \<Longrightarrow> free_b (heap ?t x) = free_b (heap s x)"
      using s1(3) by (simp add: view_def)
    have fn: "free_b (heap ?t (b + sz))" using s1(5) nb by (simp add: view_def)
    have u: "{x \<in> set ?xs. \<not> free_b (heap ?t x)}
          = insert b {x \<in> set (ys @ b # zs). \<not> free_b (heap s x)}"
    proof (intro set_eqI iffI)
      fix x assume "x \<in> {x \<in> set ?xs. \<not> free_b (heap ?t x)}"
      then have x: "x \<in> set ?xs" "\<not> free_b (heap ?t x)" by simp_all
      with fn have "x \<noteq> b + sz" by auto
      with x fl [of x] show "x \<in> insert b {x \<in> set (ys @ b # zs). \<not> free_b (heap s x)}"
        by (cases "x = b") auto
    next
      fix x assume "x \<in> insert b {x \<in> set (ys @ b # zs). \<not> free_b (heap s x)}"
      then consider "x = b" | "x \<noteq> b" "x \<in> set ys \<union> set zs" "\<not> free_b (heap s x)"
        by auto
      then show "x \<in> {x \<in> set ?xs. \<not> free_b (heap ?t x)}"
      proof cases
        case 1 then show ?thesis by simp
      next
        case 2
        with nb have "x \<noteq> b + sz" by auto
        with 2 fl [of x] show ?thesis by auto
      qed
    qed
    have so: "sorted_wrt (<) (ys @ b # zs) \<longrightarrow> sorted_wrt (<) ?xs"
    proof
      assume a: "sorted_wrt (<) (ys @ b # zs)"
      have "\<forall>z\<in>set zs. b + sz < z"
      proof
        fix z assume z: "z \<in> set zs"
        with a have "b < z" by (auto simp: sorted_wrt_append)
        from wf_above [OF wf z this] sz show "b + sz < z" by simp
      qed
      moreover have "\<forall>y\<in>set ys. y < b + sz" using a by (auto simp: sorted_wrt_append)
      ultimately show "sorted_wrt (<) ?xs" using a sz by (auto simp: sorted_wrt_append)
    qed
    have sb: "size_b (heap s1 b) = sz" "size_b (heap s1 (b + sz)) = size_b (heap s b) - sz"
      "free_b (heap s1 (b + sz))" "region_id (heap s1 (b + sz)) = region_id (heap s b)"
      using s1(4,5) by (simp_all add: view_def)
    show ?thesis
      using s1(1,6,7,8,9) w p u so sb sz
      by (intro exI [of _ "Some (b + sz)"] exI [of _ s1] exI [of _ ?xs]) simp
  qed
qed


section \<open>The fit strategies on a chain\<close>

lemma first_fit_from_dll:
  "dll (heap s) pp p xs l None \<Longrightarrow> first_fit_from s sz p = Some (find (fits s sz) xs)"
proof (induction xs arbitrary: pp p)
  case Nil
  then show ?case by (simp add: first_fit_from.simps)
next
  case (Cons x xs)
  then have p: "p = Some x" and r: "dll (heap s) (Some x) (next_b (heap s x)) xs l None"
    by simp_all
  from Cons.IH [OF r] show ?case
    unfolding p by (subst first_fit_from.simps) (simp add: nxt_def fits_def [abs_def])
qed

lemma worst_fit_from_dll:
  "dll (heap s) pp p xs l None \<Longrightarrow>
   \<exists>r. worst_fit_from s sz p w ws = Some r
        \<and> (r = w \<or> (\<exists>c\<in>set xs. r = Some c \<and> fits s sz c))"
proof (induction xs arbitrary: pp p w ws)
  case Nil
  then show ?case by (simp add: worst_fit_from.simps)
next
  case (Cons x xs)
  then have p: "p = Some x" and r: "dll (heap s) (Some x) (next_b (heap s x)) xs l None"
    by simp_all
  show ?case
  proof (cases "fits s sz x \<and> ssize (size_diff s x sz) > ws")
    case True
    from Cons.IH [OF r, of "Some x" "ssize (size_diff s x sz)"] True show ?thesis
      unfolding p by (subst worst_fit_from.simps) (auto simp: nxt_def fits_def)
  next
    case False
    from Cons.IH [OF r, of w ws] False show ?thesis
      unfolding p by (subst worst_fit_from.simps) (auto simp: nxt_def fits_def)
  qed
qed

lemma best_fit_from_dll:
  "dll (heap s) pp p xs l None \<Longrightarrow>
   \<exists>r. best_fit_from s sz p w ws = Some r
        \<and> (r = w \<or> (\<exists>c\<in>set xs. r = Some c \<and> fits s sz c))"
proof (induction xs arbitrary: pp p w ws)
  case Nil
  then show ?case by (simp add: best_fit_from.simps)
next
  case (Cons x xs)
  then have p: "p = Some x" and r: "dll (heap s) (Some x) (next_b (heap s x)) xs l None"
    by simp_all
  show ?case
  proof (cases "fits s sz x \<and> size_diff s x sz < ws")
    case True
    from Cons.IH [OF r, of "Some x" "size_diff s x sz"] True show ?thesis
      unfolding p by (subst best_fit_from.simps) (auto simp: nxt_def fits_def)
  next
    case False
    from Cons.IH [OF r, of w ws] False show ?thesis
      unfolding p by (subst best_fit_from.simps) (auto simp: nxt_def fits_def)
  qed
qed

lemma first_fit_chain:
  "chain s xs \<Longrightarrow> first_fit s sz = Some (find (fits s sz) xs)"
  unfolding chain_def first_fit_def by (auto intro: first_fit_from_dll)

lemma find_fits:
  "find P xs = None \<or> (\<exists>c\<in>set xs. find P xs = Some c \<and> P c)"
  by (induction xs) auto

lemma fit_result:
  assumes "chain s xs"
  shows "\<exists>r. (if algo = ''first_fit'' then first_fit s sz
               else if algo = ''best_fit'' then best_fit s sz
               else if algo = ''worst_fit'' then worst_fit s sz
               else Some None) = Some r
          \<and> (r = None \<or> (\<exists>c\<in>set xs. r = Some c \<and> fits s sz c))"
proof -
  from assms have d: "dll (heap s) None (g_head s) xs (g_tail s) None"
    by (simp add: chain_def)
  have 1: "\<exists>r. first_fit s sz = Some r \<and> (r = None \<or> (\<exists>c\<in>set xs. r = Some c \<and> fits s sz c))"
    using first_fit_chain [OF assms, of sz] find_fits [of "fits s sz" xs] by auto
  have 2: "\<exists>r. best_fit s sz = Some r \<and> (r = None \<or> (\<exists>c\<in>set xs. r = Some c \<and> fits s sz c))"
    unfolding best_fit_def by (rule best_fit_from_dll [OF d])
  have 3: "\<exists>r. worst_fit s sz = Some r \<and> (r = None \<or> (\<exists>c\<in>set xs. r = Some c \<and> fits s sz c))"
    unfolding worst_fit_def by (rule worst_fit_from_dll [OF d])
  from 1 2 3 show ?thesis by simp
qed

lemma reuse_result:
  assumes "chain s xs"
  shows "reuse e sz s = Some (None, s)
     \<or> (\<exists>c\<in>set xs. fits s sz c
          \<and> reuse e sz s = Option.bind (split_block c sz s) (\<lambda>(r, s1). Some (Some c, s1)))"
proof -
  let ?algo = "case algorithm e of None \<Rightarrow> ''first_fit'' | Some a \<Rightarrow> a"
  from fit_result [OF assms, of ?algo sz] obtain r where
    r: "(if ?algo = ''first_fit'' then first_fit s sz
         else if ?algo = ''best_fit'' then best_fit s sz
         else if ?algo = ''worst_fit'' then worst_fit s sz
         else Some None) = Some r"
      "r = None \<or> (\<exists>c\<in>set xs. r = Some c \<and> fits s sz c)"
    by blast
  have "reuse e sz s = (case r of None \<Rightarrow> Some (None, s)
      | Some b \<Rightarrow> Option.bind (split_block b sz s) (\<lambda>(r, s1). Some (Some b, s1)))"
    unfolding reuse_def Let_def r(1) by simp
  with r(2) show ?thesis by auto
qed

section \<open>Mapping a new region\<close>

lemma link_region_wf:
  assumes ch: "chain s xs" and nx: "a \<notin> set xs"
  shows "\<exists>m. link_region a R s = Some m \<and> chain m (xs @ [a])
      \<and> (\<forall>x. x \<noteq> a \<longrightarrow> view m x = view s x)
      \<and> view m a = \<lparr>b_at = a, b_len = R, b_reg = g_regions s, b_free = True\<rparr>
      \<and> mapped m = mapped s \<union> {a ..< a + R}
      \<and> g_regions m = (g_regions s + 1) mod 2 ^ 64
      \<and> mem m = mem s \<and> stderr m = stderr s"
proof (cases xs rule: rev_cases)
  case Nil
  with ch have ht: "g_head s = None" "g_tail s = None" by (simp_all add: chain_def)
  show ?thesis
    unfolding Nil
    by (simp add: link_region_def Let_def ht chain_def view_def)
next
  case (snoc ys t)
  with ch have d: "dll (heap s) None (g_head s) (ys @ [t]) (g_tail s) None"
    and di: "distinct (ys @ [t])" by (simp_all add: chain_def)
  from d obtain pm where t: "dll (heap s) None (g_head s) ys pm (Some t)"
    "prev_b (heap s t) = pm" "next_b (heap s t) = None" "g_tail s = Some t"
    unfolding dll_snoc by auto
  from nx snoc have na: "a \<noteq> t" "a \<notin> set ys" by auto
  from di have nt: "t \<notin> set ys" by simp
  let ?m2 = "(set_region a (g_regions s)
     ((set_name a (snprintf32 ''Allocation '' (g_allocations s))
        (s\<lparr>mapped := mapped s \<union> {a ..< a + R}\<rparr>))
        \<lparr>g_allocations := (g_allocations s + 1) mod 2 ^ 64\<rparr>))
     \<lparr>g_regions := (g_regions s + 1) mod 2 ^ 64\<rparr>"
  let ?m = "set_next a None (set_size a R (set_free a True
     ((set_prev a (Some t) (set_next t (Some a) ?m2))\<lparr>g_tail := Some a\<rparr>)))"
  have eq: "link_region a R s = Some ?m"
    by (simp add: link_region_def Let_def t(4) set_next_at_def)
  have dy: "dll (heap ?m) None (g_head ?m) ys pm (Some t)"
  proof -
    have "dll (heap ?m) None (g_head s) ys pm (Some t) = dll (heap s) None (g_head s) ys pm (Some t)"
    proof (rule dll_cong)
      fix x assume "x \<in> set ys"
      with na nt have "x \<noteq> a" "x \<noteq> t" by auto
      then show "next_b (heap ?m x) = next_b (heap s x) \<and> prev_b (heap ?m x) = prev_b (heap s x)"
        by simp
    qed
    with t(1) show ?thesis by simp
  qed
  have "dll (heap ?m) None (g_head ?m) (ys @ [t] @ [a]) (g_tail ?m) None"
    using dy na t(2) by (intro dll_appendI [OF dy]) simp
  with di nx snoc have c: "chain ?m (xs @ [a])" by (simp add: chain_def)
  show ?thesis
    using eq c by (intro exI [of _ ?m]) (simp add: view_def)
qed

lemma aligned_less: "aligned n < 2 ^ 64"
  by (simp add: aligned_def Let_def)

lemma round_up_pages:
  fixes A p :: nat
  assumes p: "0 < p"
  defines "k \<equiv> (if A mod p \<noteq> 0 then A div p + 1 else A div p)"
  shows "A \<le> k * p" "k * p < A + p"
proof -
  have e: "A = A div p * p + A mod p" by simp
  have m: "A mod p < p" using p by simp
  show "A \<le> k * p"
  proof (cases "A mod p = 0")
    case True
    then show ?thesis using e by (simp add: k_def)
  next
    case False
    have "A \<le> A div p * p + p" using e m by linarith
    then show ?thesis using False by (simp add: k_def)
  qed
  show "k * p < A + p"
  proof (cases "A mod p = 0")
    case True
    then show ?thesis using e p by (simp add: k_def)
  next
    case False
    then have "0 < A mod p" by simp
    with e have "A div p * p + p < A + p" by linarith
    then show ?thesis using False by (simp add: k_def)
  qed
qed

lemma region_size_ok:
  assumes p: "104 \<le> page_size e" "page_size e dvd 2 ^ 64"
    and A: "A < 2 ^ 64" and R: "0 < region_size_for e A"
  shows "104 \<le> region_size_for e A" "A \<le> region_size_for e A"
proof -
  let ?p = "page_size e"
  define k where "k = (if A mod ?p \<noteq> 0 then A div ?p + 1 else A div ?p)"
  have p0: "0 < ?p" using p(1) by simp
  have Rk: "region_size_for e A = (k * ?p) mod 2 ^ 64"
    by (simp add: region_size_for_def Let_def k_def)
  from round_up_pages [OF p0, of A] have b: "A \<le> k * ?p" "k * ?p < A + ?p"
    by (simp_all add: k_def)
  from p(2) obtain q where q: "(2::nat) ^ 64 = ?p * q" by (auto simp: dvd_def)
  have lt: "k * ?p < 2 ^ 64"
  proof (rule ccontr)
    assume "\<not> k * ?p < 2 ^ 64"
    then have ge: "?p * q \<le> k * ?p" using q by simp
    then have "q \<le> k" using p0 by (simp add: mult.commute)
    moreover have "k * ?p < ?p * q + ?p" using b(2) A q by simp
    then have "k * ?p < (q + 1) * ?p" by (simp add: mult.commute)
    then have "k < q + 1" by (rule mult_less_cancel2 [THEN iffD1, THEN conjunct2])
    ultimately have "k = q" by simp
    then have "k * ?p = 2 ^ 64" using q by (simp add: mult.commute)
    then have "region_size_for e A = 0" unfolding Rk by simp
    with R show False by simp
  qed
  then have Re: "region_size_for e A = k * ?p" unfolding Rk by simp
  with b(1) show "A \<le> region_size_for e A" by simp
  from R Re have "0 < k" by (cases k) auto
  then have "?p \<le> k * ?p" by simp
  with p(1) have "104 \<le> k * ?p" by linarith
  then show "104 \<le> region_size_for e A" unfolding Re .
qed

lemma wf_mem [simp]: "wf (s\<lparr>mem := mm\<rparr>) xs = wf s xs"
  by (simp add: wf_def)

lemma memset_keep: "n = 0 \<Longrightarrow> memset p c n s = Some s"
  by (simp add: memset_def)

lemma wf_stderr [simp]: "wf (s\<lparr>stderr := er\<rparr>) xs = wf s xs"
  by (simp add: wf_def)

lemma scribble_step:
  assumes "scribble e \<longrightarrow> n \<noteq> 0 \<longrightarrow> accessible t p n"
  shows "\<exists>mm. (if scribble e then memset (Some p) c n t else Some t) = Some (t\<lparr>mem := mm\<rparr>)
      \<and> (\<not> scribble e \<or> n = 0 \<longrightarrow> mm = mem t)"
proof (cases "\<not> scribble e \<or> n = 0")
  case True
  then show ?thesis by (intro exI [of _ "mem t"]) (auto simp: memset_def)
next
  case False
  with assms show ?thesis
    by (intro exI [of _ "\<lambda>x. if p \<le> x \<and> x < p + n then c else mem t x"])
      (simp add: memset_def)
qed

lemma data_accessible:
  assumes wf: "wf t xs" and b: "b \<in> set xs" and n: "n + 100 \<le> size_b (heap t b)"
  shows "accessible t (data_of b) n"
proof -
  from wf_bounds(3,5) [OF wf b]
  have 1: "b + size_b (heap t b) \<le> 2 ^ 64" "{b ..< b + size_b (heap t b)} \<subseteq> mapped t"
    by simp_all
  have d: "data_of b = b + 100" by (rule data_block(1) [OF wf b])
  have "{b + 100 ..< b + 100 + n} \<subseteq> {b ..< b + size_b (heap t b)}" using n by auto
  then have "{b + 100 ..< b + 100 + n} \<subseteq> mapped t" using 1(2) by (rule subset_trans)
  moreover have "b + 100 + n \<le> 2 ^ 64" using 1(1) n by linarith
  ultimately show ?thesis unfolding accessible_def d by simp
qed

lemma aligned_ge:
  assumes "n + header_size + ALIGN_SIZE \<le> 2 ^ 64"
  shows "n + 100 \<le> aligned n"
proof -
  from assms have lt: "n + 100 < (2::nat) ^ 64" "n + 108 \<le> (2::nat) ^ 64"
    by (simp_all add: header_size_def ALIGN_SIZE_def)
  show ?thesis
  proof (cases "(n + 100) mod 8 = 0")
    case True
    with lt show ?thesis by (simp add: aligned_def Let_def header_size_def ALIGN_SIZE_def)
  next
    case False
    then have r: "0 < (n + 100) mod 8" "(n + 100) mod 8 < 8" by simp_all
    then have "n + 100 + 8 - (n + 100) mod 8 < n + 108" by linarith
    with lt(2) have w: "n + 100 + 8 - (n + 100) mod 8 < 2 ^ 64" by linarith
    have "n + 100 \<le> n + 100 + 8 - (n + 100) mod 8" using r by linarith
    with False lt w show ?thesis
      by (simp add: aligned_def Let_def header_size_def ALIGN_SIZE_def)
  qed
qed

section \<open>Allocation keeps the invariant\<close>

lemma take_finish:
  assumes wf: "wf s (ys @ b # zs)" and fb: "free_b (heap s b)"
    and pk: "packed (map (view s) (ys @ b # zs))" and le: "sz \<le> size_b (heap s b)"
    and lv: "live_ok s (ys @ b # zs) live"
    and so: "asc \<longrightarrow> sorted_wrt (<) (ys @ b # zs)"
    and sc: "scribble e \<longrightarrow> n + 100 \<le> sz"
  shows "\<exists>r s1 mm xs'. split_block b sz s = Some (r, s1)
      \<and> (if scribble e then memset (Some (data_of b)) 170 n (set_free b False s1)
          else Some (set_free b False s1)) = Some ((set_free b False s1)\<lparr>mem := mm\<rparr>)
      \<and> inv asc ((set_free b False s1)\<lparr>mem := mm\<rparr>, insert (data_of b) live) xs'
      \<and> b \<in> set xs' \<and> set (ys @ b # zs) \<subseteq> set xs'
      \<and> sz \<le> size_b (heap s1 b) \<and> (104 \<le> sz \<longrightarrow> size_b (heap s1 b) < sz + 104)
      \<and> (\<not> scribble e \<or> n = 0 \<longrightarrow> mm = mem s)
      \<and> mapped s1 = mapped s \<and> stderr s1 = stderr s \<and> g_regions s1 = g_regions s"
proof -
  from take_block [OF wf fb pk le] obtain r s1 xs' where
    t: "split_block b sz s = Some (r, s1)"
    "wf (set_free b False s1) xs'"
    "packed (map (view (set_free b False s1)) xs')"
    "{x \<in> set xs'. \<not> free_b (heap (set_free b False s1) x)}
          = insert b {x \<in> set (ys @ b # zs). \<not> free_b (heap s x)}"
    "sorted_wrt (<) (ys @ b # zs) \<longrightarrow> sorted_wrt (<) xs'"
    "mem s1 = mem s" "mapped s1 = mapped s" "stderr s1 = stderr s"
    "g_regions s1 = g_regions s" "sz \<le> size_b (heap s1 b)"
    "case r of
           None \<Rightarrow> s1 = s \<and> xs' = ys @ b # zs
              \<and> (sz < 104 \<or> size_b (heap s b) - sz < 104)
         | Some nb \<Rightarrow> nb = b + sz \<and> xs' = ys @ b # nb # zs \<and> 104 \<le> sz
              \<and> size_b (heap s1 b) = sz \<and> 104 \<le> size_b (heap s1 nb)
              \<and> size_b (heap s1 nb) = size_b (heap s b) - sz
              \<and> free_b (heap s1 nb)
              \<and> region_id (heap s1 nb) = region_id (heap s b)"
    by blast
  let ?t = "set_free b False s1"
  have xs': "b \<in> set xs'" "set (ys @ b # zs) \<subseteq> set xs'"
    using t(11) by (auto split: option.splits)
  have acc: "scribble e \<longrightarrow> n \<noteq> 0 \<longrightarrow> accessible ?t (data_of b) n"
  proof (intro impI)
    assume "scribble e"
    with sc t(10) have "n + 100 \<le> size_b (heap ?t b)" by simp
    with t(2) xs'(1) show "accessible ?t (data_of b) n" by (rule data_accessible)
  qed
  from scribble_step [OF acc, of 170] obtain mm where
    mm: "(if scribble e then memset (Some (data_of b)) 170 n ?t else Some ?t)
           = Some (?t\<lparr>mem := mm\<rparr>)"
    "\<not> scribble e \<or> n = 0 \<longrightarrow> mm = mem ?t"
    by blast
  have sz: "104 \<le> sz \<longrightarrow> size_b (heap s1 b) < sz + 104"
    using t(11) le by (auto split: option.splits)
  have lv': "insert (data_of b) live = data_of ` {x \<in> set xs'. \<not> free_b (heap ?t x)}"
    unfolding t(4) using lv by (simp add: live_ok_def)
  have "inv asc (?t\<lparr>mem := mm\<rparr>, insert (data_of b) live) xs'"
    using t(2,3,5) so lv' by (simp add: inv_def live_ok_def)
  with t(1) mm xs' sz t(6-10) show ?thesis
    by (intro exI [of _ r] exI [of _ s1] exI [of _ mm] exI [of _ xs']) simp
qed

lemma malloc_reuse_inv:
  assumes iv: "inv asc (s, live) xs" and c: "c \<in> set xs" "fits s sz c"
    and sc: "scribble e \<longrightarrow> n + 100 \<le> sz"
  shows "\<exists>r s1 mm xs'. split_block c sz s = Some (r, s1)
      \<and> (if scribble e then memset (Some (data_of c)) 170 n (set_free c False s1)
          else Some (set_free c False s1)) = Some ((set_free c False s1)\<lparr>mem := mm\<rparr>)
      \<and> inv asc ((set_free c False s1)\<lparr>mem := mm\<rparr>, insert (data_of c) live) xs'
      \<and> c \<in> set xs' \<and> set xs \<subseteq> set xs'
      \<and> sz \<le> size_b (heap s1 c) \<and> (104 \<le> sz \<longrightarrow> size_b (heap s1 c) < sz + 104)
      \<and> (\<not> scribble e \<or> n = 0 \<longrightarrow> mm = mem s)
      \<and> mapped s1 = mapped s \<and> stderr s1 = stderr s \<and> g_regions s1 = g_regions s"
proof -
  from c(1) obtain ys zs where xs: "xs = ys @ c # zs" by (auto simp: in_set_conv_decomp)
  from iv have "wf s (ys @ c # zs)" "packed (map (view s) (ys @ c # zs))"
    "live_ok s (ys @ c # zs) live" "asc \<longrightarrow> sorted_wrt (<) (ys @ c # zs)"
    unfolding xs inv_def by simp_all
  moreover from c(2) have "free_b (heap s c)" "sz \<le> size_b (heap s c)"
    by (simp_all add: fits_def)
  ultimately show ?thesis
    unfolding xs using sc by (intro take_finish)
qed

lemma malloc_map_inv:
  assumes iv: "inv asc (s, live) xs" and ok: "os_ok e n s"
    and ab: "asc \<longrightarrow> maps_above e s" and a: "mmap_ret e = Some a"
    and sc: "scribble e \<longrightarrow> n + 100 \<le> aligned n"
  shows "\<exists>m r s1 mm xs'. link_region a (region_size_for e (aligned n)) s = Some m
      \<and> split_block a (aligned n) m = Some (r, s1)
      \<and> (if scribble e then memset (Some (data_of a)) 170 n (set_free a False s1)
          else Some (set_free a False s1)) = Some ((set_free a False s1)\<lparr>mem := mm\<rparr>)
      \<and> inv asc ((set_free a False s1)\<lparr>mem := mm\<rparr>, insert (data_of a) live) xs'
      \<and> a \<in> set xs' \<and> set xs \<subseteq> set xs'
      \<and> aligned n \<le> size_b (heap s1 a)
      \<and> (104 \<le> aligned n \<longrightarrow> size_b (heap s1 a) < aligned n + 104)
      \<and> (\<not> scribble e \<or> n = 0 \<longrightarrow> mm = mem s)
      \<and> mapped s1 = mapped s \<union> {a ..< a + region_size_for e (aligned n)}
      \<and> stderr s1 = stderr s \<and> g_regions s1 = g_regions s + 1"
proof -
  let ?R = "region_size_for e (aligned n)"
  from iv have wf: "wf s xs" and pk: "packed (map (view s) xs)"
    and lv: "live = data_of ` {x \<in> set xs. \<not> free_b (heap s x)}"
    and asc: "asc \<longrightarrow> sorted_wrt (<) xs"
    by (simp_all add: inv_def live_ok_def)
  from ok a have os: "104 \<le> page_size e" "page_size e dvd 2 ^ 64" "g_regions s + 1 < 2 ^ 64"
    "0 < a" "0 < ?R" "a + ?R \<le> 2 ^ 64" "{a ..< a + ?R} \<inter> mapped s = {}"
    by (simp_all add: os_ok_def header_size_def BLOCK_ALIGN_def)
  from region_size_ok [OF os(1,2) aligned_less os(5)]
  have R: "104 \<le> ?R" "aligned n \<le> ?R" by simp_all
  have inm: "\<And>x. x \<in> set xs \<Longrightarrow> x \<in> mapped s"
  proof -
    fix x assume x: "x \<in> set xs"
    from wf_bounds(2,5) [OF wf x] show "x \<in> mapped s" by auto
  qed
  have nx: "a \<notin> set xs"
  proof
    assume "a \<in> set xs"
    then have "a \<in> mapped s" by (rule inm)
    moreover have "a \<in> {a ..< a + ?R}" using os(5) by simp
    ultimately show False using os(7) by blast
  qed
  from wf have ch: "chain s xs" by (simp add: wf_def)
  from link_region_wf [OF ch nx, of ?R] obtain m where
    m: "link_region a ?R s = Some m" "chain m (xs @ [a])"
    "\<forall>x. x \<noteq> a \<longrightarrow> view m x = view s x"
    "view m a = \<lparr>b_at = a, b_len = ?R, b_reg = g_regions s, b_free = True\<rparr>"
    "mapped m = mapped s \<union> {a ..< a + ?R}"
    "g_regions m = (g_regions s + 1) mod 2 ^ 64"
    "mem m = mem s" "stderr m = stderr s"
    by blast
  have gm: "g_regions m = Suc (g_regions s)" using m(6) os(3) by simp
  have mv: "map (view m) (xs @ [a])
      = map (view s) xs @ \<lparr>b_at = a, b_len = ?R, b_reg = g_regions s, b_free = True\<rparr>
          # map (view s) []"
    using m(3,4) nx by (intro map_view_at) auto
  have gd: "good (g_regions m) (mapped m) (map (view m) (xs @ [a]))"
    unfolding mv gm m(5) list.map
    using wf os R by (intro good_new_region) (simp_all add: wf_def Int_commute)
  have wfm: "wf m (xs @ [a])" using m(2) gd by (simp add: wf_def)
  have pkm: "packed (map (view m) (xs @ [a]))"
  proof -
    have "xs = [] \<or> not_both_free (last (map (view s) xs))
        \<lparr>b_at = a, b_len = ?R, b_reg = g_regions s, b_free = True\<rparr>"
    proof (cases "xs = []")
      case False
      then have "last xs \<in> set xs" by simp
      from wf_bounds(4) [OF wf this] False show ?thesis
        by (simp add: not_both_free_def last_map)
    qed simp
    with pk show ?thesis unfolding mv list.map
      by (simp add: packed_append_iff packed_Cons_iff)
  qed
  have fa: "free_b (heap m a)" using m(4) by (simp add: view_def)
  have sa: "aligned n \<le> size_b (heap m a)" using m(4) R by (simp add: view_def)
  have fx: "\<And>x. x \<in> set xs \<Longrightarrow> free_b (heap m x) = free_b (heap s x)"
  proof -
    fix x assume "x \<in> set xs"
    with nx have "x \<noteq> a" by auto
    with m(3) show "free_b (heap m x) = free_b (heap s x)" by (simp add: view_def)
  qed
  have "{x \<in> set (xs @ [a]). \<not> free_b (heap m x)} = {x \<in> set xs. \<not> free_b (heap s x)}"
    using fa fx by auto
  with lv have lvm: "live_ok m (xs @ [a]) live" by (simp add: live_ok_def)
  have som: "asc \<longrightarrow> sorted_wrt (<) (xs @ [a])"
  proof
    assume asc
    with ab a have "\<forall>x\<in>mapped s. x < a" by (simp add: maps_above_def)
    with inm have "\<forall>x\<in>set xs. x < a" by blast
    with asc \<open>asc\<close> show "sorted_wrt (<) (xs @ [a])" by (simp add: sorted_wrt_append)
  qed
  from take_finish [of m xs a "[]" "aligned n" live asc e n, OF wfm fa pkm sa lvm som sc]
  obtain r s1 mm xs' where
    t: "split_block a (aligned n) m = Some (r, s1)"
    "(if scribble e then memset (Some (data_of a)) 170 n (set_free a False s1)
          else Some (set_free a False s1)) = Some ((set_free a False s1)\<lparr>mem := mm\<rparr>)"
    "inv asc ((set_free a False s1)\<lparr>mem := mm\<rparr>, insert (data_of a) live) xs'"
    "a \<in> set xs'" "set (xs @ [a]) \<subseteq> set xs'"
    "aligned n \<le> size_b (heap s1 a)"
    "104 \<le> aligned n \<longrightarrow> size_b (heap s1 a) < aligned n + 104"
    "\<not> scribble e \<or> n = 0 \<longrightarrow> mm = mem m"
    "mapped s1 = mapped m" "stderr s1 = stderr m" "g_regions s1 = g_regions m"
    by blast
  from t(5) have sub: "set xs \<subseteq> set xs'" by simp
  show ?thesis
    using m(1) t(1,2,3,4) sub t(6,7,8,9,10,11) m(5,7,8) gm
    by (intro exI [of _ m] exI [of _ r] exI [of _ s1] exI [of _ mm] exI [of _ xs']) simp
qed

lemma malloc_inv:
  assumes iv: "inv asc (s, live) xs" and ok: "call_ok asc (Malloc e n) (s, live)"
  shows "\<exists>r s' xs'. malloc e n s = Some (r, s') \<and> inv asc (s', live \<union> set_option r) xs'
      \<and> set xs \<subseteq> set xs'
      \<and> (mmap_ret e \<noteq> None \<longrightarrow> r \<noteq> None)
      \<and> (r = None \<longrightarrow> s' = s\<lparr>stderr := stderr s @ [''mmap'']\<rparr>)
      \<and> (\<forall>p. r = Some p \<longrightarrow>
            block_of p \<in> set xs' \<and> p = data_of (block_of p)
            \<and> \<not> free_b (heap s' (block_of p))
            \<and> aligned n \<le> size_b (heap s' (block_of p))
            \<and> (104 \<le> aligned n \<longrightarrow> size_b (heap s' (block_of p)) < aligned n + 104))
      \<and> (\<not> scribble e \<or> n = 0 \<longrightarrow> mem s' = mem s)"
    (is "\<exists>r s' xs'. ?G r s' xs'")
proof -
  from ok have os: "os_ok e n s" and ab: "asc \<longrightarrow> maps_above e s"
    and sc0: "scribble e \<longrightarrow> n + header_size + ALIGN_SIZE \<le> 2 ^ 64"
    by simp_all
  from sc0 have sc: "scribble e \<longrightarrow> n + 100 \<le> aligned n"
    using aligned_ge by blast
  from iv have wf: "wf s xs" by (simp add: inv_def)
  then have ch: "chain s xs" by (simp add: wf_def)
  have fin: "\<And>b s1 mm xs' s2.
      malloc e n s = Option.bind (Some s2)
        (\<lambda>t. Option.bind (if scribble e then memset (Some (data_of b)) 170 n (set_free b False t)
                           else Some (set_free b False t))
          (\<lambda>s3. Some (Some (data_of b), s3)))
      \<Longrightarrow> s2 = s1
      \<Longrightarrow> (if scribble e then memset (Some (data_of b)) 170 n (set_free b False s1)
          else Some (set_free b False s1)) = Some ((set_free b False s1)\<lparr>mem := mm\<rparr>)
      \<Longrightarrow> inv asc ((set_free b False s1)\<lparr>mem := mm\<rparr>, insert (data_of b) live) xs'
      \<Longrightarrow> b \<in> set xs' \<Longrightarrow> set xs \<subseteq> set xs'
      \<Longrightarrow> aligned n \<le> size_b (heap s1 b)
      \<Longrightarrow> (104 \<le> aligned n \<longrightarrow> size_b (heap s1 b) < aligned n + 104)
      \<Longrightarrow> (\<not> scribble e \<or> n = 0 \<longrightarrow> mm = mem s)
      \<Longrightarrow> \<exists>r s' xs'. ?G r s' xs'"
  proof -
    fix b s1 mm xs' s2
    assume a: "malloc e n s = Option.bind (Some s2)
        (\<lambda>t. Option.bind (if scribble e then memset (Some (data_of b)) 170 n (set_free b False t)
                           else Some (set_free b False t))
          (\<lambda>s3. Some (Some (data_of b), s3)))"
      "s2 = s1"
      "(if scribble e then memset (Some (data_of b)) 170 n (set_free b False s1)
          else Some (set_free b False s1)) = Some ((set_free b False s1)\<lparr>mem := mm\<rparr>)"
      "inv asc ((set_free b False s1)\<lparr>mem := mm\<rparr>, insert (data_of b) live) xs'"
      "b \<in> set xs'" "set xs \<subseteq> set xs'"
      "aligned n \<le> size_b (heap s1 b)"
      "104 \<le> aligned n \<longrightarrow> size_b (heap s1 b) < aligned n + 104"
      "\<not> scribble e \<or> n = 0 \<longrightarrow> mm = mem s"
    let ?s' = "(set_free b False s1)\<lparr>mem := mm\<rparr>"
    from a(4) have wf': "wf ?s' xs'" by (simp add: inv_def)
    have bo: "block_of (data_of b) = b" by (rule data_block(2) [OF wf' a(5)])
    have m: "malloc e n s = Some (Some (data_of b), ?s')"
      unfolding a(1) a(2) by (simp add: a(3))
    have "?G (Some (data_of b)) ?s' xs'"
      using m a(4-9) by (simp add: bo)
    then show "\<exists>r s' xs'. ?G r s' xs'" by blast
  qed
  from reuse_result [OF ch, of e "aligned n"] show ?thesis
  proof (elim disjE bexE conjE)
    assume r: "reuse e (aligned n) s = Some (None, s)"
    from os have ps: "page_size e \<noteq> 0"
      by (auto simp: os_ok_def header_size_def BLOCK_ALIGN_def)
    show ?thesis
    proof (cases "mmap_ret e")
      case None
      have m: "malloc e n s = Some (None, s\<lparr>stderr := stderr s @ [''mmap'']\<rparr>)"
        by (simp add: malloc_def r map_region_def ps None Let_def)
      have "inv asc (s\<lparr>stderr := stderr s @ [''mmap'']\<rparr>, live) xs"
        using iv by (simp add: inv_def live_ok_def)
      with m None have "?G None (s\<lparr>stderr := stderr s @ [''mmap'']\<rparr>) xs" by simp
      then show ?thesis by blast
    next
      case (Some a)
      from malloc_map_inv [OF iv os ab Some sc] obtain m r s1 mm xs' where
        t: "link_region a (region_size_for e (aligned n)) s = Some m"
        "split_block a (aligned n) m = Some (r, s1)"
        "(if scribble e then memset (Some (data_of a)) 170 n (set_free a False s1)
          else Some (set_free a False s1)) = Some ((set_free a False s1)\<lparr>mem := mm\<rparr>)"
        "inv asc ((set_free a False s1)\<lparr>mem := mm\<rparr>, insert (data_of a) live) xs'"
        "a \<in> set xs'" "set xs \<subseteq> set xs'"
        "aligned n \<le> size_b (heap s1 a)"
        "104 \<le> aligned n \<longrightarrow> size_b (heap s1 a) < aligned n + 104"
        "\<not> scribble e \<or> n = 0 \<longrightarrow> mm = mem s"
        by blast
      have "malloc e n s = Option.bind (Some s1)
        (\<lambda>t. Option.bind (if scribble e then memset (Some (data_of a)) 170 n (set_free a False t)
                           else Some (set_free a False t))
          (\<lambda>s3. Some (Some (data_of a), s3)))"
        by (simp add: malloc_def r map_region_def ps Some Let_def t(1,2))
      from fin [OF this refl t(3-9)] show ?thesis .
    qed
  next
    fix c assume c: "c \<in> set xs" "fits s (aligned n) c"
      and r: "reuse e (aligned n) s
          = Option.bind (split_block c (aligned n) s) (\<lambda>(r, s1). Some (Some c, s1))"
    from malloc_reuse_inv [OF iv c sc] obtain r' s1 mm xs' where
      t: "split_block c (aligned n) s = Some (r', s1)"
      "(if scribble e then memset (Some (data_of c)) 170 n (set_free c False s1)
          else Some (set_free c False s1)) = Some ((set_free c False s1)\<lparr>mem := mm\<rparr>)"
      "inv asc ((set_free c False s1)\<lparr>mem := mm\<rparr>, insert (data_of c) live) xs'"
      "c \<in> set xs'" "set xs \<subseteq> set xs'"
      "aligned n \<le> size_b (heap s1 c)"
      "104 \<le> aligned n \<longrightarrow> size_b (heap s1 c) < aligned n + 104"
      "\<not> scribble e \<or> n = 0 \<longrightarrow> mm = mem s"
      by blast
    have "malloc e n s = Option.bind (Some s1)
        (\<lambda>t. Option.bind (if scribble e then memset (Some (data_of c)) 170 n (set_free c False t)
                           else Some (set_free c False t))
          (\<lambda>s3. Some (Some (data_of c), s3)))"
      by (simp add: malloc_def r t(1) Let_def)
    from fin [OF this refl t(2-8)] show ?thesis .
  qed
qed

section \<open>Sequences of calls keep the invariant\<close>

lemma inv_init: "inv asc (init, {}) []"
  by (simp add: inv_def wf_def chain_def live_ok_def init_def)

lemma step_inv:
  assumes iv: "inv asc c xs" and ok: "call_ok asc k c"
  shows "\<exists>c' xs'. step k c = Some c' \<and> inv asc c' xs'"
proof (cases c)
  case (Pair s live)
  show ?thesis
  proof (cases k)
    case (Malloc e n)
    from malloc_inv [of asc s live xs e n] iv ok obtain r s' xs' where
      "malloc e n s = Some (r, s')" "inv asc (s', live \<union> set_option r) xs'"
      unfolding Pair Malloc by blast
    then show ?thesis unfolding Pair Malloc by auto
  next
    case (Free e p)
    show ?thesis
    proof (cases p)
      case None
      then show ?thesis using iv unfolding Pair Free by (auto simp: free_def)
    next
      case (Some a)
      with ok have "a \<in> live" unfolding Pair Free by simp
      from free_inv [of asc s live xs a e] iv this obtain s' xs' where
        "free e (Some a) s = Some s'" "inv asc (s', live - {a}) xs'"
        unfolding Pair by blast
      then show ?thesis unfolding Pair Free Some by auto
    qed
  qed
qed

lemma run_inv:
  "inv asc c xs \<Longrightarrow> run_ok asc ks c \<Longrightarrow> \<exists>c' xs'. run ks c = Some c' \<and> inv asc c' xs'"
proof (induction ks arbitrary: c xs)
  case Nil
  then show ?case by auto
next
  case (Cons k ks)
  from Cons.prems have ok: "call_ok asc k c" by simp
  from step_inv [OF Cons.prems(1) ok] obtain c' xs' where
    c': "step k c = Some c'" "inv asc c' xs'" by blast
  with Cons.prems(2) have "run_ok asc ks c'" by simp
  from Cons.IH [OF c'(2) this] c'(1) show ?case by simp
qed

lemma run_ok_take: "run_ok asc ks c \<Longrightarrow> run_ok asc (take i ks) c"
proof (induction ks arbitrary: c i)
  case Nil
  then show ?case by simp
next
  case (Cons k ks)
  show ?case
  proof (cases i)
    case 0
    then show ?thesis by simp
  next
    case (Suc j)
    with Cons show ?thesis by (auto split: option.splits)
  qed
qed

lemma inv_no_adjacent_free:
  assumes wf: "wf s xs" and pk: "packed (map (view s) xs)"
  shows "no_adjacent_free s xs"
  unfolding no_adjacent_free_def
proof (intro ballI impI)
  fix x y
  assume x: "x \<in> set xs" and y: "y \<in> set xs"
    and a: "y = x + size_b (heap s x) \<and> region_id (heap s x) = region_id (heap s y)"
  from wf_bounds(2) [OF wf x] a have ne: "x < y" by simp
  from wf have d: "distinct xs" by (simp add: wf_def chain_def)
  from x obtain as bs where xs: "xs = as @ x # bs" by (auto simp: in_set_conv_decomp)
  show "\<not> (free_b (heap s x) \<and> free_b (heap s y))"
  proof (cases "y \<in> set bs")
    case True
    then obtain z cs where bs: "bs = z # cs" by (cases bs) auto
    from wf xs bs have w: "wf s (as @ x # z # cs)" by simp
    from wf_rid(2) [OF wf [unfolded xs]] True bs
    have "region_id (heap s x) \<le> region_id (heap s z)" by simp
    moreover have "region_id (heap s z) \<le> region_id (heap s y)"
    proof (cases "y = z")
      case False
      with True bs have "y \<in> set cs" by simp
      from wf_rid(2) [of s "as @ [x]" z cs] w this show ?thesis by simp
    qed simp
    ultimately have rz: "region_id (heap s z) = region_id (heap s x)" using a by simp
    from wf_contiguous [OF w rz] a have "z = y" by simp
    with pk a show ?thesis
      unfolding xs bs by (auto simp: packed_append_iff packed_Cons_iff not_both_free_def)
  next
    case False
    with y xs ne have "y \<in> set as" by auto
    then obtain as1 as2 where as: "as = as1 @ y # as2" by (auto simp: in_set_conv_decomp)
    from wf have w: "wf s (as1 @ y # (as2 @ x # bs))" unfolding xs as by simp
    have "apart (view s y) (view s x)"
      using w by (auto simp: wf_def good_append_iff good_Cons_iff)
    moreover have "0 < size_b (heap s y)" using wf_bounds(2) [OF wf y] by simp
    ultimately have False using ne a by (auto simp: apart_def b_end_def)
    then show ?thesis ..
  qed
qed

lemma sorted_address_ordered:
  assumes ch: "chain s xs" and so: "sorted_wrt (<) xs"
  shows "address_ordered s xs"
proof (cases "xs = []")
  case True
  with ch so show ?thesis by (simp add: address_ordered_def)
next
  case False
  from ch have d: "dll (heap s) None (g_head s) xs (g_tail s) None" by (simp add: chain_def)
  from dll_hd [OF d False] dll_last [OF d False]
  have ht: "g_head s = Some (hd xs)" "g_tail s = Some (last xs)" by simp_all
  have "\<forall>x\<in>set xs. hd xs \<le> x \<and> x \<le> last xs"
  proof
    fix x assume x: "x \<in> set xs"
    from so have s': "sorted xs" by (rule strict_sorted_imp_sorted)
    have "hd xs \<le> x"
    proof (cases xs)
      case Nil
      with False show ?thesis by simp
    next
      case (Cons h t)
      with x s' show ?thesis by auto
    qed
    moreover have "x \<le> last xs"
    proof (cases xs rule: rev_cases)
      case Nil
      with False show ?thesis by simp
    next
      case (snoc t l)
      with x s' show ?thesis by (auto simp: sorted_append)
    qed
    ultimately show "hd xs \<le> x \<and> x \<le> last xs" ..
  qed
  with ch so ht show ?thesis by (simp add: address_ordered_def)
qed

section \<open>The last call of a sequence\<close>

lemma run_ok_snoc:
  "run_ok asc (ks @ [k]) c \<Longrightarrow> run ks c = Some c' \<Longrightarrow> call_ok asc k c'"
proof (induction ks arbitrary: c)
  case Nil
  then show ?case by simp
next
  case (Cons j ks)
  then show ?case by (auto split: option.splits)
qed

lemma run_ok_butlast: "run_ok asc (ks @ [k]) c \<Longrightarrow> run_ok asc ks c"
  using run_ok_take [of asc "ks @ [k]" c "length ks"] by simp

lemma aligned_zero: "aligned 0 = 104"
  by (simp add: aligned_def header_size_def ALIGN_SIZE_def)

section \<open>A failing unmap\<close>

lemma merge_with_next_os:
  "merge_with_next b s = Some s' \<Longrightarrow> mapped s' = mapped s \<and> stderr s' = stderr s"
  by (auto simp: merge_with_next_def Let_def set_prev_at_def nxt_def
      split: option.splits if_splits bind_splits)

lemma merge_with_prev_os:
  "merge_with_prev b s = Some s' \<Longrightarrow> mapped s' = mapped s \<and> stderr s' = stderr s"
  by (auto simp: merge_with_prev_def Let_def set_next_at_def nxt_def prv_def
      split: option.splits if_splits bind_splits)

lemma release_region_fail:
  assumes "release_region e1 b s = Some (r1, s1)" "mapped s1 \<noteq> mapped s" "\<not> munmap_ok e"
  shows "\<exists>s'. release_region e b s = Some (None, s') \<and> stderr s' = stderr s @ [''munmap'']"
  using assms
  by (auto simp: release_region_def do_munmap_def Let_def set_next_at_def set_prev_at_def
      nxt_def prv_def split: option.splits if_splits bind_splits)

lemma free_fail:
  assumes "free e1 (Some a) s = Some t" "mapped t \<noteq> mapped s" "\<not> munmap_ok e"
  shows "\<exists>s'. free e (Some a) s = Some s' \<and> stderr s' = stderr s @ [''munmap'']"
proof -
  let ?b = "block_of a" and ?s1 = "set_free (block_of a) True s"
  from assms(1) obtain sa sb r1 where
    1: "merge_with_next ?b ?s1 = Some sa" "merge_with_prev ?b sa = Some sb"
    "release_region e1 ?b sb = Some (r1, t)"
    by (auto simp: free_def merge_block_def Let_def split: bind_splits)
  from merge_with_next_os [OF 1(1)] merge_with_prev_os [OF 1(2)]
  have os: "mapped sb = mapped s" "stderr sb = stderr s" by simp_all
  from assms(2) os(1) have "mapped t \<noteq> mapped sb" by simp
  from release_region_fail [OF 1(3) this assms(3)] obtain s' where
    "release_region e ?b sb = Some (None, s')" "stderr s' = stderr sb @ [''munmap'']"
    by blast
  with 1(1,2) os(2) show ?thesis
    by (simp add: free_def merge_block_def Let_def)
qed

section \<open>Worst fit with a single candidate\<close>






section \<open>Two releases side by side\<close>

lemma chain_next:
  assumes "chain s (ys @ b # zs)"
  shows "next_b (heap s b) = (if zs = [] then None else Some (hd zs))"
    and "g_tail s = (if zs = [] then Some b else Some (last zs))"
proof -
  from assms have hz: "dll (heap s) (Some b) (next_b (heap s b)) zs (g_tail s) None"
    by (simp add: chain_at)
  show "next_b (heap s b) = (if zs = [] then None else Some (hd zs))"
    using hz dll_hd [OF hz] by (cases zs) auto
  show "g_tail s = (if zs = [] then Some b else Some (last zs))"
    using hz dll_last [OF hz] by (cases "zs = []") auto
qed

lemma chain_prev:
  assumes "chain s (ys @ b # zs)"
  shows "prev_b (heap s b) = (if ys = [] then None else Some (last ys))"
proof -
  from assms have hy: "dll (heap s) None (g_head s) ys (prev_b (heap s b)) (Some b)"
    by (simp add: chain_at)
  show ?thesis using hy dll_last [OF hy] by (cases "ys = []") auto
qed

lemma free_alone:
  assumes wf: "wf s (ys @ b # zs)"
    and nx: "zs = [] \<or> \<not> (free_b (heap s (hd zs))
                \<and> region_id (heap s (hd zs)) = region_id (heap s b))"
    and pv: "ys = [] \<or> \<not> (free_b (heap s (last ys))
                \<and> region_id (heap s (last ys)) = region_id (heap s b))"
    and kp: "(ys \<noteq> [] \<and> region_id (heap s (last ys)) = region_id (heap s b))
             \<or> (zs \<noteq> [] \<and> region_id (heap s (hd zs)) = region_id (heap s b))"
  shows "free e (Some (data_of b)) s = Some (set_free b True s)"
proof -
  let ?t = "set_free b True s"
  have b: "b \<in> set (ys @ b # zs)" by simp
  have bo: "block_of (data_of b) = b" by (rule data_block(2) [OF wf b])
  have wt: "wf ?t (ys @ b # zs)" using wf by (rule wf_set_free)
  then have ch: "chain ?t (ys @ b # zs)" by (simp add: wf_def)
  from wf have d: "distinct (ys @ b # zs)" by (simp add: wf_def chain_def)
  have hz: "zs \<noteq> [] \<Longrightarrow> hd zs \<noteq> b" using d by (cases zs) auto
  have ly: "ys \<noteq> [] \<Longrightarrow> last ys \<noteq> b" using d by (cases ys rule: rev_cases) auto
  have 1: "merge_with_next b ?t = Some ?t"
  proof (rule merge_with_next_noop)
    show "next_b (heap ?t b) = None
     \<or> (\<exists>n. next_b (heap ?t b) = Some n
           \<and> \<not> (free_b (heap ?t n) \<and> region_id (heap ?t n) = region_id (heap ?t b)))"
      unfolding chain_next(1) [OF ch] using nx hz by (cases "zs = []") auto
  qed
  have 2: "merge_with_prev b ?t = Some ?t"
  proof (rule merge_with_prev_noop)
    show "prev_b (heap ?t b) = None
     \<or> (\<exists>p. prev_b (heap ?t b) = Some p
           \<and> \<not> (free_b (heap ?t p) \<and> region_id (heap ?t p) = region_id (heap ?t b)))"
      unfolding chain_prev [OF ch] using pv ly by (cases "ys = []") auto
  qed
  have 3: "release_region e b ?t = Some (Some b, ?t)"
  proof (rule release_keep [OF wt])
    show "(ys \<noteq> [] \<and> region_id (heap ?t (last ys)) = region_id (heap ?t b))
          \<or> (zs \<noteq> [] \<and> region_id (heap ?t (hd zs)) = region_id (heap ?t b))"
      using kp by auto
  qed
  show ?thesis
    by (simp add: free_def Let_def bo merge_block_def 1 2 3)
qed

lemma set_free_twist:
  "set_free y f (set_free x g s) = set_free x g (set_free y f s)" if "x \<noteq> y"
  using that by (simp add: set_free_def fun_upd_twist)

lemma set_prev_next_twist:
  "set_prev y v (set_next x w s) = set_next x w (set_prev y v s)" if "x \<noteq> y"
  using that by (simp add: set_prev_def set_next_def fun_upd_twist)

lemma merge_pair_same:
  assumes wf: "wf t (ys @ x # y # zs)"
    and fx: "free_b (heap t x)" and fy: "free_b (heap t y)"
    and rg: "region_id (heap t x) = region_id (heap t y)"
  shows "merge_with_prev y t = merge_with_next x t"
proof -
  from wf have ch: "chain t (ys @ x # y # zs)" by (simp add: wf_def)
  then have d: "distinct (ys @ x # y # zs)" by (simp add: chain_def)
  then have ne: "x \<noteq> y" by auto
  from chain_snoc_prev(1,2) [OF ch] have pn: "prev_b (heap t y) = Some x"
    "next_b (heap t x) = Some y" by simp_all
  from wf_contiguous [OF wf rg [symmetric]] have adj: "y = x + size_b (heap t x)" .
  from wf_bounds(1) [OF wf, of x] wf_bounds(3) [OF wf, of y] adj
  have lt: "size_b (heap t x) + size_b (heap t y) < 2 ^ 64" by simp
  from ch have ch': "chain t ((ys @ [x]) @ y # zs)" by simp
  show ?thesis
  proof (cases zs)
    case Nil
    with chain_next(2) [OF ch'] have tl: "g_tail t = Some y" by simp
    have "merge_with_prev y t = Some (set_prev y None (set_next x None
          ((set_size x (size_b (heap t x) + size_b (heap t y)) t)\<lparr>g_tail := Some x\<rparr>)))"
      using pn(1) ne fx rg lt tl by (intro merge_with_prev_tail) auto
    moreover have "merge_with_next x t = Some (set_next x None (set_prev y None
          ((set_size x (size_b (heap t x) + size_b (heap t y)) t)\<lparr>g_tail := Some x\<rparr>)))"
      using pn(2) ne fy rg lt tl by (intro merge_with_next_tail) auto
    ultimately show ?thesis using ne by (simp add: set_prev_next_twist)
  next
    case (Cons n zs')
    with chain_next(1) [OF ch'] have ny: "next_b (heap t y) = Some n" by simp
    from ch Cons have tl: "g_tail t \<noteq> Some y"
      using chain_tail_next [of t "ys @ [x]" y n zs'] by simp
    have "merge_with_prev y t = Some (set_prev n (Some x) (set_next x (Some n)
          (set_size x (size_b (heap t x) + size_b (heap t y)) t)))"
      using pn(1) ne fx rg lt tl ny by (intro merge_with_prev_mid) auto
    moreover have "merge_with_next x t = Some (set_prev n (Some x) (set_next x (Some n)
          (set_size x (size_b (heap t x) + size_b (heap t y)) t)))"
      using pn(2) ne fy rg lt tl ny by (intro merge_with_next_mid) auto
    ultimately show ?thesis by simp
  qed
qed

lemma free_pair:
  assumes wf: "wf s (ys @ x # y # zs)"
    and nfx: "\<not> free_b (heap s x)" and nfy: "\<not> free_b (heap s y)"
    and rg: "region_id (heap s x) = region_id (heap s y)"
    and L: "ys = [] \<or> \<not> (free_b (heap s (last ys))
                \<and> region_id (heap s (last ys)) = region_id (heap s x))"
    and R: "zs = [] \<or> \<not> (free_b (heap s (hd zs))
                \<and> region_id (heap s (hd zs)) = region_id (heap s x))"
    and W: "(ys \<noteq> [] \<and> region_id (heap s (last ys)) = region_id (heap s x))
             \<or> (zs \<noteq> [] \<and> region_id (heap s (hd zs)) = region_id (heap s x))"
  shows "\<exists>s'. Option.bind (free e1 (Some (data_of x)) s) (free e2 (Some (data_of y))) = Some s'
      \<and> Option.bind (free e3 (Some (data_of y)) s) (free e4 (Some (data_of x))) = Some s'
      \<and> wf s' (ys @ x # zs)
      \<and> view s' x = \<lparr>b_at = x, b_len = size_b (heap s x) + size_b (heap s y),
                        b_reg = region_id (heap s x), b_free = True\<rparr>
      \<and> (\<forall>z. z \<noteq> x \<longrightarrow> z \<noteq> y \<longrightarrow> view s' z = view s z)
      \<and> mapped s' = mapped s \<and> stderr s' = stderr s \<and> mem s' = mem s"
proof -
  let ?sx = "set_free x True s" and ?sy = "set_free y True s"
  let ?t = "set_free y True (set_free x True s)"
  from wf have d: "distinct (ys @ x # y # zs)" by (simp add: wf_def chain_def)
  then have ne: "x \<noteq> y" by auto
  have hz: "zs \<noteq> [] \<Longrightarrow> hd zs \<noteq> x \<and> hd zs \<noteq> y" using d by (cases zs) auto
  have ly: "ys \<noteq> [] \<Longrightarrow> last ys \<noteq> x \<and> last ys \<noteq> y"
    using d by (cases ys rule: rev_cases) auto
  from wf have wf2: "wf s ((ys @ [x]) @ y # zs)" by simp
  have A1: "free e1 (Some (data_of x)) s = Some ?sx"
  proof (rule free_alone [of s ys x "y # zs"])
    show "wf s (ys @ x # y # zs)" by (rule wf)
    show "y # zs = [] \<or> \<not> (free_b (heap s (hd (y # zs)))
        \<and> region_id (heap s (hd (y # zs))) = region_id (heap s x))"
      using nfy by simp
    show "ys = [] \<or> \<not> (free_b (heap s (last ys))
        \<and> region_id (heap s (last ys)) = region_id (heap s x))" by (rule L)
    show "(ys \<noteq> [] \<and> region_id (heap s (last ys)) = region_id (heap s x))
        \<or> (y # zs \<noteq> [] \<and> region_id (heap s (hd (y # zs))) = region_id (heap s x))"
      using rg by simp
  qed
  have B1: "free e3 (Some (data_of y)) s = Some ?sy"
  proof (rule free_alone [of s "ys @ [x]" y zs])
    show "wf s ((ys @ [x]) @ y # zs)" by (rule wf2)
    show "zs = [] \<or> \<not> (free_b (heap s (hd zs))
        \<and> region_id (heap s (hd zs)) = region_id (heap s y))"
      using R rg by simp
    show "ys @ [x] = [] \<or> \<not> (free_b (heap s (last (ys @ [x])))
        \<and> region_id (heap s (last (ys @ [x]))) = region_id (heap s y))"
      using nfx by simp
    show "(ys @ [x] \<noteq> [] \<and> region_id (heap s (last (ys @ [x]))) = region_id (heap s y))
        \<or> (zs \<noteq> [] \<and> region_id (heap s (hd zs)) = region_id (heap s y))"
      using rg by simp
  qed
  have wsx: "wf ?sx (ys @ x # y # zs)" using wf by (rule wf_set_free)
  then have "wf ?sx ((ys @ [x]) @ y # zs)" by simp
  then have "wf ?t ((ys @ [x]) @ y # zs)" by (rule wf_set_free)
  then have wt: "wf ?t (ys @ x # y # zs)" by simp
  have tw: "set_free x True ?sy = ?t" using ne by (simp add: set_free_twist)
  have ft: "free_b (heap ?t x)" "free_b (heap ?t y)"
    "region_id (heap ?t x) = region_id (heap ?t y)"
    using rg by simp_all
  from merge_next_wf [OF wt ft(2) ft(3) [symmetric]] obtain M where
    M: "merge_with_next x ?t = Some M" "wf M (ys @ x # zs)"
    "view M x = \<lparr>b_at = x, b_len = size_b (heap ?t x) + size_b (heap ?t y),
                       b_reg = region_id (heap ?t x), b_free = free_b (heap ?t x)\<rparr>"
    "\<forall>z. z \<noteq> x \<longrightarrow> view M z = view ?t z"
    "mapped M = mapped ?t" "g_regions M = g_regions ?t" "mem M = mem ?t"
    "stderr M = stderr ?t"
    by blast
  from merge_pair_same [OF wt ft] M(1) have Mp: "merge_with_prev y ?t = Some M" by simp
  from merge_prev_wf [OF wt ft(1) ft(3)] Mp have npo: "\<not> prev_other_region M y" by auto
  from M(2) have chM: "chain M (ys @ x # zs)" by (simp add: wf_def)
  have vz: "\<And>z. z \<noteq> x \<Longrightarrow> z \<noteq> y \<Longrightarrow> view M z = view s z"
    using M(4) by simp
  have fz: "\<And>z. z \<noteq> x \<Longrightarrow> z \<noteq> y \<Longrightarrow> free_b (heap M z) = free_b (heap s z)
      \<and> region_id (heap M z) = region_id (heap s z)"
    using vz by (simp add: view_def)
  have rx: "region_id (heap M x) = region_id (heap s x)" using M(3) by (simp add: view_def)
  \<comment> \<open>the second release after \<open>x\<close> was released\<close>
  have boy: "block_of (data_of y) = y" by (rule data_block(2) [OF wsx]) simp
  have chT: "chain ?t ((ys @ [x]) @ y # zs)" using wt by (simp add: wf_def)
  have n1: "merge_with_next y ?t = Some ?t"
  proof (rule merge_with_next_noop)
    show "next_b (heap ?t y) = None
     \<or> (\<exists>n. next_b (heap ?t y) = Some n
           \<and> \<not> (free_b (heap ?t n) \<and> region_id (heap ?t n) = region_id (heap ?t y)))"
      unfolding chain_next(1) [OF chT] using R hz rg by (cases "zs = []") auto
  qed
  have d2: "y \<notin> set (ys @ x # zs)" using d by auto
  have r1: "release_region e2 y M = Some (Some y, M)"
    using chM d2 npo by (rule release_region_absent)
  have A2: "free e2 (Some (data_of y)) ?sx = Some M"
    by (simp add: free_def Let_def boy merge_block_def n1 Mp r1)
  \<comment> \<open>the second release after \<open>y\<close> was released\<close>
  have wsy: "wf ?sy ((ys @ [x]) @ y # zs)" using wf2 by (rule wf_set_free)
  have box: "block_of (data_of x) = x" by (rule data_block(2) [OF wsy]) simp
  have p1: "merge_with_prev x M = Some M"
  proof (rule merge_with_prev_noop)
    show "prev_b (heap M x) = None
     \<or> (\<exists>p. prev_b (heap M x) = Some p
           \<and> \<not> (free_b (heap M p) \<and> region_id (heap M p) = region_id (heap M x)))"
      unfolding chain_prev [OF chM] using L ly fz rx by (cases "ys = []") auto
  qed
  have r2: "release_region e4 x M = Some (Some x, M)"
  proof (rule release_keep [OF M(2)])
    show "(ys \<noteq> [] \<and> region_id (heap M (last ys)) = region_id (heap M x))
          \<or> (zs \<noteq> [] \<and> region_id (heap M (hd zs)) = region_id (heap M x))"
      using W ly hz fz rx by auto
  qed
  have B2: "free e4 (Some (data_of x)) ?sy = Some M"
    by (simp add: free_def Let_def box tw merge_block_def M(1) p1 r2)
  have vx: "view M x = \<lparr>b_at = x, b_len = size_b (heap s x) + size_b (heap s y),
                        b_reg = region_id (heap s x), b_free = True\<rparr>"
    using M(3) ne by simp
  show ?thesis
    using A1 A2 B1 B2 M(2) vx vz M(5,7,8)
    by (intro exI [of _ M]) simp
qed

lemma dll_unique:
  "dll h pp p xs l None \<Longrightarrow> dll h pp p ys l' None \<Longrightarrow> xs = ys"
proof (induction xs arbitrary: pp p ys)
  case Nil
  then show ?case by (cases ys) auto
next
  case (Cons x xs)
  then show ?case by (cases ys) auto
qed

lemma chain_unique: "chain s xs \<Longrightarrow> chain s ys \<Longrightarrow> xs = ys"
  unfolding chain_def by (blast intro: dll_unique)

lemma adjacent_decomp:
  assumes wf: "wf s xs" and x: "x \<in> set xs" and y: "y \<in> set xs"
    and a: "y = x + size_b (heap s x)" "region_id (heap s x) = region_id (heap s y)"
  shows "\<exists>ys zs. xs = ys @ x # y # zs"
proof -
  from wf_bounds(2) [OF wf x] a have ne: "x < y" by simp
  from x obtain as bs where xs: "xs = as @ x # bs" by (auto simp: in_set_conv_decomp)
  show ?thesis
  proof (cases "y \<in> set bs")
    case True
    then obtain z cs where bs: "bs = z # cs" by (cases bs) auto
    from wf xs bs have w: "wf s (as @ x # z # cs)" by simp
    from wf_rid(2) [OF wf [unfolded xs]] True bs
    have "region_id (heap s x) \<le> region_id (heap s z)" by simp
    moreover have "region_id (heap s z) \<le> region_id (heap s y)"
    proof (cases "y = z")
      case False
      with True bs have "y \<in> set cs" by simp
      from wf_rid(2) [of s "as @ [x]" z cs] w this show ?thesis by simp
    qed simp
    ultimately have rz: "region_id (heap s z) = region_id (heap s x)" using a by simp
    from wf_contiguous [OF w rz] a have "z = y" by simp
    with xs bs show ?thesis by blast
  next
    case False
    with y xs ne have "y \<in> set as" by auto
    then obtain as1 as2 where as: "as = as1 @ y # as2" by (auto simp: in_set_conv_decomp)
    from wf have w: "wf s (as1 @ y # (as2 @ x # bs))" unfolding xs as by simp
    have "apart (view s y) (view s x)"
      using w by (auto simp: wf_def good_append_iff good_Cons_iff)
    moreover have "0 < size_b (heap s y)" using wf_bounds(2) [OF wf y] by simp
    ultimately have False using ne a by (auto simp: apart_def b_end_def)
    then show ?thesis ..
  qed
qed

lemma free_pair_addr:
  assumes wf: "wf s xs" and x: "x \<in> set xs" and y: "y \<in> set xs"
    and a: "y = x + size_b (heap s x)" "region_id (heap s x) = region_id (heap s y)"
    and nf: "\<not> free_b (heap s x)" "\<not> free_b (heap s y)"
    and out: "\<forall>z\<in>set xs. region_id (heap s z) = region_id (heap s x) \<and> free_b (heap s z)
                \<longrightarrow> z + size_b (heap s z) \<noteq> x \<and> y + size_b (heap s y) \<noteq> z"
    and oth: "\<exists>z\<in>set xs. z \<noteq> x \<and> z \<noteq> y \<and> region_id (heap s z) = region_id (heap s x)"
  shows "\<exists>s'. Option.bind (free e1 (Some (data_of x)) s) (free e2 (Some (data_of y))) = Some s'
      \<and> Option.bind (free e3 (Some (data_of y)) s) (free e4 (Some (data_of x))) = Some s'
      \<and> chain s' (remove1 y xs) \<and> free_b (heap s' x)
      \<and> size_b (heap s' x) = size_b (heap s x) + size_b (heap s y)
      \<and> (\<forall>z\<in>set xs. z \<noteq> x \<and> z \<noteq> y \<longrightarrow> view s' z = view s z)
      \<and> mapped s' = mapped s \<and> stderr s' = stderr s \<and> mem s' = mem s"
proof -
  from adjacent_decomp [OF wf x y a] obtain ys zs where xs: "xs = ys @ x # y # zs" by blast
  from wf have w: "wf s (ys @ x # y # zs)" unfolding xs .
  then have d: "distinct (ys @ x # y # zs)" by (simp add: wf_def chain_def)
  have L: "ys = [] \<or> \<not> (free_b (heap s (last ys))
                \<and> region_id (heap s (last ys)) = region_id (heap s x))"
  proof (cases "ys = []")
    case False
    then obtain ys1 p where ys: "ys = ys1 @ [p]" by (cases ys rule: rev_cases) auto
    have "\<not> (free_b (heap s p) \<and> region_id (heap s p) = region_id (heap s x))"
    proof
      assume h: "free_b (heap s p) \<and> region_id (heap s p) = region_id (heap s x)"
      from w have "wf s (ys1 @ p # x # y # zs)" unfolding ys by simp
      from wf_contiguous [OF this] h have "x = p + size_b (heap s p)" by simp
      moreover have "p \<in> set xs" unfolding xs ys by simp
      ultimately show False using out h by auto
    qed
    then show ?thesis unfolding ys by simp
  qed simp
  have R: "zs = [] \<or> \<not> (free_b (heap s (hd zs))
                \<and> region_id (heap s (hd zs)) = region_id (heap s x))"
  proof (cases zs)
    case (Cons n zs1)
    have "\<not> (free_b (heap s n) \<and> region_id (heap s n) = region_id (heap s x))"
    proof
      assume h: "free_b (heap s n) \<and> region_id (heap s n) = region_id (heap s x)"
      from w have "wf s ((ys @ [x]) @ y # n # zs1)" unfolding Cons by simp
      from wf_contiguous [OF this] h a(2) have "n = y + size_b (heap s y)" by simp
      moreover have "n \<in> set xs" unfolding xs Cons by simp
      ultimately show False using out h by auto
    qed
    then show ?thesis unfolding Cons by simp
  qed simp
  have W: "(ys \<noteq> [] \<and> region_id (heap s (last ys)) = region_id (heap s x))
             \<or> (zs \<noteq> [] \<and> region_id (heap s (hd zs)) = region_id (heap s x))"
  proof -
    from oth obtain z where z: "z \<in> set xs" "z \<noteq> x" "z \<noteq> y"
      "region_id (heap s z) = region_id (heap s x)" by blast
    then consider "z \<in> set ys" | "z \<in> set zs" unfolding xs by auto
    then show ?thesis
    proof cases
      case 1
      then obtain ys1 p where ys: "ys = ys1 @ [p]" by (cases ys rule: rev_cases) auto
      from w have w': "wf s (ys1 @ p # x # y # zs)" unfolding ys by simp
      from wf_rid(2) [OF w'] have px: "region_id (heap s p) \<le> region_id (heap s x)" by simp
      have "region_id (heap s z) \<le> region_id (heap s p)"
      proof (cases "z = p")
        case False
        with 1 ys have "z \<in> set ys1" by simp
        with wf_rid(1) [OF w'] show ?thesis by simp
      qed simp
      with px z(4) show ?thesis unfolding ys by simp
    next
      case 2
      then obtain n zs1 where zs: "zs = n # zs1" by (cases zs) auto
      from w have w': "wf s ((ys @ [x, y]) @ n # zs1)" unfolding zs by simp
      from wf_rid(1) [OF w'] have xn: "region_id (heap s x) \<le> region_id (heap s n)" by simp
      have "region_id (heap s n) \<le> region_id (heap s z)"
      proof (cases "z = n")
        case False
        with 2 zs have "z \<in> set zs1" by simp
        with wf_rid(2) [OF w'] show ?thesis by simp
      qed simp
      with xn z(4) show ?thesis unfolding zs by simp
    qed
  qed
  from free_pair [OF w nf a(2) L R W, of e1 e2 e3 e4] obtain s' where
    s': "Option.bind (free e1 (Some (data_of x)) s) (free e2 (Some (data_of y))) = Some s'"
    "Option.bind (free e3 (Some (data_of y)) s) (free e4 (Some (data_of x))) = Some s'"
    "wf s' (ys @ x # zs)"
    "view s' x = \<lparr>b_at = x, b_len = size_b (heap s x) + size_b (heap s y),
                        b_reg = region_id (heap s x), b_free = True\<rparr>"
    "\<forall>z. z \<noteq> x \<longrightarrow> z \<noteq> y \<longrightarrow> view s' z = view s z"
    "mapped s' = mapped s" "stderr s' = stderr s" "mem s' = mem s"
    by blast
  from d have rm: "remove1 y xs = ys @ x # zs" unfolding xs by (simp add: remove1_append)
  from s'(3) have ch: "chain s' (remove1 y xs)" unfolding rm by (simp add: wf_def)
  from s'(4) have fx: "free_b (heap s' x)"
    "size_b (heap s' x) = size_b (heap s x) + size_b (heap s y)"
    by (simp_all add: view_def)
  show ?thesis
    using s'(1,2,5,6,7,8) ch fx by (intro exI [of _ s']) simp
qed

section \<open>Failed mappings\<close>

text \<open>
  Claim C8. When the mapping fails, \<open>malloc\<close> and \<open>malloc_name\<close> print the error and
  return \<open>NULL\<close> with the list untouched. \<open>calloc\<close> does not test the result of
  \<open>malloc\<close>: on the empty allocator, \<open>calloc(1, 8)\<close> with a failing \<open>mmap\<close> passes
  \<open>NULL\<close> to \<open>memset\<close> with a length of 8 and faults instead of returning \<open>NULL\<close>.
\<close>

theorem calloc_faults_when_mapping_fails:
  "malloc (env None None True) 8 init = Some (None, init\<lparr>stderr := [''mmap'']\<rparr>)
   \<and> malloc_name (env None None True) 8 ''tag'' init
       = Some (None, init\<lparr>stderr := [''mmap'']\<rparr>)
   \<and> calloc (env None None True) 1 8 init = None"
  by (simp add: run_defs)

section \<open>Best fit\<close>

text \<open>
  Claim C6. \<open>best_fit\<close> starts its search with the bound \<open>INT_MAX\<close>, so a free block
  whose excess over the request is \<open>INT_MAX\<close> or more is never selected. After
  \<open>a = malloc(2147483648)\<close>, \<open>malloc(3888)\<close> and \<open>free(a)\<close> the head of the list is a
  free block of 2147483752 bytes, and \<open>best_fit(104)\<close> returns no candidate although
  that block is free and large enough.
\<close>

theorem best_fit_misses_large_block:
  "(do {
      (a, s1) \<leftarrow> malloc (env (Some ''best_fit'') (Some 8192) True) 2147483648 init;
      (b, s2) \<leftarrow> malloc (env (Some ''best_fit'') None True) 3888 s1;
      s3 \<leftarrow> free (env (Some ''best_fit'') None True) a s2;
      r \<leftarrow> best_fit s3 104;
      Some (a, g_head s3, free_b (heap s3 8192), size_b (heap s3 8192), r)
    }) = Some (Some 8292, Some 8192, True, 2147483752, None)"
  by (simp add: run_defs)

section \<open>Resizing\<close>

text \<open>
  Claim C5. \<open>realloc\<close> allocates a new block and copies \<open>new_size\<close> bytes from the old
  pointer; it never releases the old block and does not look at its size. Take
  \<open>p = malloc(8)\<close> (a block of 112 bytes at 8192, 12 of them usable) and
  \<open>r = malloc(8)\<close>, and let the caller store 7 in \<open>r[0]\<close>. Then \<open>realloc(p, 200)\<close>
  returns 8516 and leaves the block at 8192 in use, and the byte at offset 112 of the
  new data area is the caller's 7: a copy of the byte 112 bytes after \<open>p\<close>, beyond the
  12 usable bytes of the old block.
\<close>

theorem realloc_keeps_old_block_and_overreads:
  "(do {
      (p, s1) \<leftarrow> malloc (env None (Some 8192) True) 8 init;
      (r, s2) \<leftarrow> malloc (env None None True) 8 s1;
      s3 \<leftarrow> store 8404 7 s2;
      (q, s4) \<leftarrow> realloc (env None None True) p 200 s3;
      Some (p, r, q, size_b (heap s1 8192), free_b (heap s4 8192), mem s4 8628)
    }) = Some (Some 8292, Some 8404, Some 8516, 112, False, 7)"
  by (simp add: run_defs)

section \<open>The order of the list\<close>

text \<open>
  Claim C1, as stated, fails: \<open>malloc\<close> links every new region as the new tail,
  wherever \<open>mmap\<close> placed it. After a first region at 8192 is used up and \<open>mmap\<close>
  returns 4096 for the second, the head of the list is 8192 and the tail is 4096.
\<close>

theorem lower_region_breaks_address_order:
  "run_ok False [Malloc (env None (Some 8192) True) 3996,
                 Malloc (env None (Some 4096) True) 3996] (init, {})
   \<and> (case run [Malloc (env None (Some 8192) True) 3996,
                 Malloc (env None (Some 4096) True) 3996] (init, {}) of
        None \<Rightarrow> None
      | Some (s, live) \<Rightarrow>
          Some (g_head s, g_tail s, next_b (heap s 8192), prev_b (heap s 4096),
                chain s [8192, 4096], address_ordered s [8192, 4096]))
     = Some (Some 8192, Some 4096, Some 4096, Some 8192, True, False)"
  by (simp add: run_defs ok_defs)

text \<open>
  Claim C1, amended: in every sequence of \<open>malloc\<close> and \<open>free\<close> calls during which
  \<open>mmap\<close> places each new region above every address mapped at that moment, every
  call returns and, after each call, the list is a doubly-linked chain in strictly
  increasing address order whose head is its lowest and whose tail is its highest
  block.
\<close>

theorem list_stays_address_ordered:
  assumes "run_ok True ks (init, {})"
  shows "\<exists>s live xs. run (take i ks) (init, {}) = Some (s, live) \<and> address_ordered s xs"
proof -
  from assms have "run_ok True (take i ks) (init, {})" by (rule run_ok_take)
  from run_inv [OF inv_init this] obtain c xs where
    c: "run (take i ks) (init, {}) = Some c" "inv True c xs" by blast
  from c(2) have "chain (fst c) xs" "sorted_wrt (<) xs" by (simp_all add: inv_def wf_def)
  then have "address_ordered (fst c) xs" by (rule sorted_address_ordered)
  with c(1) show ?thesis by (cases c) auto
qed

theorem list_stays_address_ordered_witness:
  "run_ok True [Malloc (env None (Some 8192) True) 3996, Malloc (env None (Some 12288) True) 40,
                Free (env None None True) (Some 8292)] (init, {})
   \<and> (\<exists>s live xs. run (take 2 [Malloc (env None (Some 8192) True) 3996,
                                Malloc (env None (Some 12288) True) 40,
                                Free (env None None True) (Some 8292)]) (init, {}) = Some (s, live)
         \<and> address_ordered s xs)"
proof -
  have ok: "run_ok True [Malloc (env None (Some 8192) True) 3996,
      Malloc (env None (Some 12288) True) 40, Free (env None None True) (Some 8292)] (init, {})"
    by (simp add: run_defs ok_defs)
  from ok list_stays_address_ordered [OF ok, of 2] show ?thesis by (rule conjI)
qed

section \<open>Free neighbours\<close>

text \<open>
  Claim C2: in every sequence of \<open>malloc\<close> and \<open>free\<close> calls, every call returns and,
  after each call, no two tracked blocks of one region of which the second starts where
  the first ends are both free.
\<close>

theorem no_adjacent_free_blocks:
  assumes "run_ok False ks (init, {})"
  shows "\<exists>s live xs. run (take i ks) (init, {}) = Some (s, live) \<and> chain s xs
           \<and> no_adjacent_free s xs"
proof -
  from assms have "run_ok False (take i ks) (init, {})" by (rule run_ok_take)
  from run_inv [OF inv_init this] obtain c xs where
    c: "run (take i ks) (init, {}) = Some c" "inv False c xs" by blast
  from c(2) have w: "wf (fst c) xs" "packed (map (view (fst c)) xs)"
    by (simp_all add: inv_def)
  then have "no_adjacent_free (fst c) xs" by (rule inv_no_adjacent_free)
  moreover from w(1) have "chain (fst c) xs" by (simp add: wf_def)
  ultimately show ?thesis using c(1) by (cases c) auto
qed

theorem no_adjacent_free_blocks_witness:
  "run_ok False [Malloc (env None (Some 8192) True) 40, Malloc (env None None True) 40,
                 Free (env None None True) (Some 8436),
                 Free (env None None False) (Some 8292)] (init, {})
   \<and> (\<exists>s live xs. run (take 4 [Malloc (env None (Some 8192) True) 40,
                                Malloc (env None None True) 40,
                                Free (env None None True) (Some 8436),
                                Free (env None None False) (Some 8292)]) (init, {})
           = Some (s, live)
         \<and> chain s xs \<and> no_adjacent_free s xs)"
proof -
  have ok: "run_ok False [Malloc (env None (Some 8192) True) 40, Malloc (env None None True) 40,
      Free (env None None True) (Some 8436), Free (env None None False) (Some 8292)] (init, {})"
    by (simp add: run_defs ok_defs)
  from ok no_adjacent_free_blocks [OF ok, of 4] show ?thesis by (rule conjI)
qed

section \<open>The split threshold\<close>


section \<open>Requests of size zero\<close>

text \<open>
  Claim C10, as stated, fails: the block that \<open>malloc(0)\<close> returns need not have 104
  bytes. After \<open>a = malloc(40)\<close>, \<open>malloc(40)\<close> and \<open>free(a)\<close>, \<open>malloc(0)\<close> reuses the
  block of \<open>a\<close> whole, with its 144 bytes, because the 40 bytes left over are below the
  split threshold.
\<close>

theorem malloc_zero_reuses_whole_block:
  "(do {
      (a, s1) \<leftarrow> malloc (env None (Some 8192) True) 40 init;
      (b, s2) \<leftarrow> malloc (env None None True) 40 s1;
      s3 \<leftarrow> free (env None None True) a s2;
      (p, s4) \<leftarrow> malloc (env None None True) 0 s3;
      Some (a, p, free_b (heap s4 8192), size_b (heap s4 8192))
    }) = Some (Some 8292, Some 8292, False, 144)"
  by (simp add: run_defs)

text \<open>
  Claim C10, amended: after any sequence of \<open>malloc\<close> and \<open>free\<close> calls, \<open>malloc(0)\<close>
  asks for 104 bytes (the header rounded up to the alignment) and returns; the result is
  not \<open>NULL\<close> when \<open>mmap\<close> succeeds; the block returned is in use and its size, header
  included, is at least 104 and less than 208 bytes; no byte of the data areas is
  written, with or without the debug fill.
\<close>

theorem malloc_zero_block:
  assumes "run_ok False (ks @ [Malloc e 0]) (init, {})"
  shows "aligned 0 = 104
    \<and> (\<exists>s live r s'. run ks (init, {}) = Some (s, live) \<and> malloc e 0 s = Some (r, s')
          \<and> (mmap_ret e \<noteq> None \<longrightarrow> r \<noteq> None)
          \<and> (\<forall>p. r = Some p \<longrightarrow>
                \<not> free_b (heap s' (block_of p))
                \<and> 104 \<le> size_b (heap s' (block_of p))
                \<and> size_b (heap s' (block_of p)) < 208)
          \<and> mem s' = mem s)"
proof -
  from assms have ok: "run_ok False ks (init, {})" by (rule run_ok_butlast)
  from run_inv [OF inv_init ok] obtain c xs where
    c: "run ks (init, {}) = Some c" "inv False c xs" by blast
  obtain s live where sl: "c = (s, live)" by (cases c)
  from run_ok_snoc [OF assms c(1)] have k: "call_ok False (Malloc e 0) (s, live)"
    unfolding sl .
  from malloc_inv [OF c(2) [unfolded sl] k] obtain r s' xs' where
    m: "malloc e 0 s = Some (r, s')" "mmap_ret e \<noteq> None \<longrightarrow> r \<noteq> None"
    "\<forall>p. r = Some p \<longrightarrow>
            block_of p \<in> set xs' \<and> p = data_of (block_of p)
            \<and> \<not> free_b (heap s' (block_of p))
            \<and> aligned 0 \<le> size_b (heap s' (block_of p))
            \<and> (104 \<le> aligned 0 \<longrightarrow> size_b (heap s' (block_of p)) < aligned 0 + 104)"
    "\<not> scribble e \<or> (0::nat) = 0 \<longrightarrow> mem s' = mem s"
    by blast
  from m(3) have "\<forall>p. r = Some p \<longrightarrow>
                \<not> free_b (heap s' (block_of p))
                \<and> 104 \<le> size_b (heap s' (block_of p))
                \<and> size_b (heap s' (block_of p)) < 208"
    by (simp add: aligned_zero)
  with c(1) m(1,2,4) show ?thesis unfolding sl by (simp add: aligned_zero)
qed

theorem malloc_zero_block_witness:
  "run_ok False ([] @ [Malloc (env None (Some 8192) True) 0]) (init, {})
   \<and> aligned 0 = 104
    \<and> (\<exists>s live r s'. run [] (init, {}) = Some (s, live)
          \<and> malloc (env None (Some 8192) True) 0 s = Some (r, s')
          \<and> (mmap_ret (env None (Some 8192) True) \<noteq> None \<longrightarrow> r \<noteq> None)
          \<and> (\<forall>p. r = Some p \<longrightarrow>
                \<not> free_b (heap s' (block_of p))
                \<and> 104 \<le> size_b (heap s' (block_of p))
                \<and> size_b (heap s' (block_of p)) < 208)
          \<and> mem s' = mem s)"
proof -
  have ok: "run_ok False ([] @ [Malloc (env None (Some 8192) True) 0]) (init, {})"
    by (simp add: run_defs ok_defs)
  from ok malloc_zero_block [OF ok] show ?thesis by (rule conjI)
qed

section \<open>Unmap failure\<close>

text \<open>
  Claim C7, as stated, fails: \<open>merge_block\<close> unlinks the block before it calls
  \<open>munmap\<close>. When \<open>munmap\<close> fails for the only block of the list (a region of 4096
  bytes used by one allocation), \<open>merge_block\<close> prints the error and returns \<open>NULL\<close>; the
  list is then empty, the region is still mapped, and a first-fit search finds no
  block.
\<close>

theorem failed_unmap_drops_block:
  "(do {
      (p, s1) \<leftarrow> malloc (env None (Some 8192) True) 3996 init;
      (r, s2) \<leftarrow> merge_block (env None None False) 8192 (set_free 8192 True s1);
      s3 \<leftarrow> free (env None None False) p s1;
      c \<leftarrow> first_fit s3 104;
      Some (p, g_head s1, size_b (heap s1 8192), r, s3 = s2, g_head s3, g_tail s3, stderr s3,
            mapped s3 = mapped s1, c)
    }) = Some (Some 8292, Some 8192, 4096, None, True, None, None, [''munmap''], True, None)"
  by (simp add: run_defs)

text \<open>
  Claim C7, amended: after any sequence of \<open>malloc\<close> and \<open>free\<close> calls, a release during
  which \<open>munmap\<close> fails returns. If the release reaches \<open>munmap\<close>, the failure is
  printed, \<open>merge_block\<close> returns \<open>NULL\<close>, the memory stays mapped, and the block is no
  longer in the list.
\<close>

theorem failed_unmap_unlinks_block:
  assumes "run_ok False (ks @ [Free e p]) (init, {})" and "\<not> munmap_ok e"
  shows "\<exists>s live s' xs'. run ks (init, {}) = Some (s, live) \<and> free e p s = Some s'
          \<and> chain s' xs'
          \<and> (unmaps e p s \<longrightarrow>
                stderr s' = stderr s @ [''munmap''] \<and> mapped s' = mapped s
                \<and> (\<exists>a. p = Some a \<and> block_of a \<notin> set xs'
                      \<and> merge_block e (block_of a) (set_free (block_of a) True s)
                          = Some (None, s')))"
proof -
  from assms(1) have ok: "run_ok False ks (init, {})" by (rule run_ok_butlast)
  from run_inv [OF inv_init ok] obtain c xs where
    c: "run ks (init, {}) = Some c" "inv False c xs" by blast
  obtain s live where sl: "c = (s, live)" by (cases c)
  from run_ok_snoc [OF assms(1) c(1)] have k: "call_ok False (Free e p) (s, live)"
    unfolding sl .
  from c(2) have iv: "inv False (s, live) xs" unfolding sl .
  show ?thesis
  proof (cases p)
    case None
    have "free e None s = Some s" "\<not> unmaps e None s"
      by (simp_all add: free_def unmaps_def)
    moreover from iv have "chain s xs" by (simp add: inv_def wf_def)
    ultimately show ?thesis using c(1) unfolding sl None by auto
  next
    case (Some a)
    with k have al: "a \<in> live" by simp
    from free_inv [OF iv al, of e] obtain r s' xs' where
      f: "merge_block e (block_of a) (set_free (block_of a) True s) = Some (r, s')"
      "free e (Some a) s = Some s'" "inv False (s', live - {a}) xs'"
      "r = None \<longleftrightarrow> stderr s' \<noteq> stderr s"
      "r = None \<longrightarrow> block_of a \<notin> set xs' \<and> \<not> munmap_ok e \<and> mapped s' = mapped s
            \<and> stderr s' = stderr s @ [''munmap'']"
      by blast
    from f(3) have ch: "chain s' xs'" by (simp add: inv_def wf_def)
    have "unmaps e (Some a) s \<longrightarrow> r = None"
    proof
      assume "unmaps e (Some a) s"
      then obtain t where t: "free (e\<lparr>munmap_ok := True\<rparr>) (Some a) s = Some t"
        "mapped t \<noteq> mapped s"
        by (auto simp: unmaps_def split: option.splits)
      from free_fail [OF t assms(2)] f(2) have "stderr s' = stderr s @ [''munmap'']" by simp
      then have "stderr s' \<noteq> stderr s" by simp
      with f(4) show "r = None" by simp
    qed
    with f(1,2,5) ch c(1) show ?thesis unfolding sl Some by auto
  qed
qed

theorem failed_unmap_unlinks_block_witness:
  "run_ok False ([Malloc (env None (Some 8192) True) 3996]
      @ [Free (env None None False) (Some 8292)]) (init, {})
   \<and> \<not> munmap_ok (env None None False)
   \<and> (\<exists>s live s' xs'.
        run [Malloc (env None (Some 8192) True) 3996] (init, {}) = Some (s, live)
        \<and> free (env None None False) (Some 8292) s = Some s' \<and> chain s' xs'
        \<and> unmaps (env None None False) (Some 8292) s
        \<and> stderr s' = stderr s @ [''munmap''] \<and> mapped s' = mapped s
        \<and> (\<exists>a. Some 8292 = Some a \<and> block_of a \<notin> set xs'
              \<and> merge_block (env None None False) (block_of a)
                   (set_free (block_of a) True s) = Some (None, s')))"
proof -
  have ok: "run_ok False ([Malloc (env None (Some 8192) True) 3996]
      @ [Free (env None None False) (Some 8292)]) (init, {})"
    by (simp add: run_defs ok_defs)
  have nm: "\<not> munmap_ok (env None None False)" by (simp add: env_def)
  from failed_unmap_unlinks_block [OF ok nm] obtain s live s' xs' where
    w: "run [Malloc (env None (Some 8192) True) 3996] (init, {}) = Some (s, live)"
    "free (env None None False) (Some 8292) s = Some s'" "chain s' xs'"
    "unmaps (env None None False) (Some 8292) s \<longrightarrow>
                stderr s' = stderr s @ [''munmap''] \<and> mapped s' = mapped s
                \<and> (\<exists>a. Some 8292 = Some a \<and> block_of a \<notin> set xs'
                      \<and> merge_block (env None None False) (block_of a)
                           (set_free (block_of a) True s) = Some (None, s'))"
    by blast
  from w(1) have u: "unmaps (env None None False) (Some 8292) s"
    by (auto simp add: unmaps_def run_defs)
  with w ok nm show ?thesis by blast
qed

section \<open>Reuse of a released block\<close>




section \<open>Releasing two neighbours\<close>

text \<open>
  Claim C3, as stated, fails in two ways. First, with \<open>malloc(40)\<close> three times in a
  fresh region, the second and third blocks (144 bytes each, the third starting where
  the second ends) are released: the result is one free block of 3952 bytes, because
  the free remainder of the region is absorbed as well. Second, when the two blocks
  (2000 and 2096 bytes) are the whole region, releasing the lower one first leaves one
  free block of 4096 bytes in the list, and releasing the upper one first unmaps the
  region and leaves the list empty.
\<close>

theorem release_order_matters:
  "(do {
      (a, s1) \<leftarrow> malloc (env None (Some 8192) True) 40 init;
      (x, s2) \<leftarrow> malloc (env None None True) 40 s1;
      (y, s3) \<leftarrow> malloc (env None None True) 40 s2;
      s4 \<leftarrow> free (env None None True) x s3;
      s5 \<leftarrow> free (env None None True) y s4;
      Some (x, y, size_b (heap s3 8336), size_b (heap s3 8480), 8480 = 8336 + size_b (heap s3 8336),
            free_b (heap s5 8336), size_b (heap s5 8336))
    }) = Some (Some 8436, Some 8580, 144, 144, True, True, 3952)
   \<and> (do {
      (x, s1) \<leftarrow> malloc (env None (Some 8192) True) 1900 init;
      (y, s2) \<leftarrow> malloc (env None None True) 1996 s1;
      s3 \<leftarrow> free (env None None True) x s2;
      s4 \<leftarrow> free (env None None True) y s3;
      t3 \<leftarrow> free (env None None True) y s2;
      t4 \<leftarrow> free (env None None True) x t3;
      Some (x, y, size_b (heap s2 8192), size_b (heap s2 10192),
            g_head s4, free_b (heap s4 8192), size_b (heap s4 8192), mapped s4 = mapped s2,
            g_head t4, mapped t4)
    }) = Some (Some 8292, Some 10292, 2000, 2096,
               Some 8192, True, 4096, True, None, {})"
  by (simp add: run_defs)

text \<open>
  Claim C3, amended: in a state reached by any sequence of \<open>malloc\<close> and \<open>free\<close> calls,
  take two tracked blocks in use, of one region, the second starting where the first
  ends, such that no free block of the region touches the pair and the region holds a
  further block. Releasing the two in either order returns and gives the same state;
  in it the second block has left the list, the first is free with the sum of the two
  sizes, and every other block, the mapped memory and the data bytes are as before.
\<close>

theorem adjacent_releases_commute:
  assumes "run_ok False ks (init, {})"
  shows "\<exists>s live. run ks (init, {}) = Some (s, live)
     \<and> (\<forall>xs x y e1 e2 e3 e4.
          chain s xs \<and> x \<in> set xs \<and> y \<in> set xs
          \<and> y = x + size_b (heap s x) \<and> region_id (heap s x) = region_id (heap s y)
          \<and> \<not> free_b (heap s x) \<and> \<not> free_b (heap s y)
          \<and> (\<forall>z\<in>set xs. region_id (heap s z) = region_id (heap s x) \<and> free_b (heap s z)
                \<longrightarrow> z + size_b (heap s z) \<noteq> x \<and> y + size_b (heap s y) \<noteq> z)
          \<and> (\<exists>z\<in>set xs. z \<noteq> x \<and> z \<noteq> y \<and> region_id (heap s z) = region_id (heap s x))
          \<longrightarrow> (\<exists>s'. Option.bind (free e1 (Some (data_of x)) s) (free e2 (Some (data_of y)))
                       = Some s'
                \<and> Option.bind (free e3 (Some (data_of y)) s) (free e4 (Some (data_of x)))
                       = Some s'
                \<and> chain s' (remove1 y xs) \<and> free_b (heap s' x)
                \<and> size_b (heap s' x) = size_b (heap s x) + size_b (heap s y)
                \<and> (\<forall>z\<in>set xs. z \<noteq> x \<and> z \<noteq> y \<longrightarrow> view s' z = view s z)
                \<and> mapped s' = mapped s \<and> stderr s' = stderr s \<and> mem s' = mem s))"
proof -
  from run_inv [OF inv_init assms] obtain c xs0 where
    c: "run ks (init, {}) = Some c" "inv False c xs0" by blast
  obtain s live where sl: "c = (s, live)" by (cases c)
  from c(2) have wf: "wf s xs0" unfolding sl by (simp add: inv_def)
  then have ch0: "chain s xs0" by (simp add: wf_def)
  have "\<exists>s'. Option.bind (free e1 (Some (data_of x)) s) (free e2 (Some (data_of y))) = Some s'
      \<and> Option.bind (free e3 (Some (data_of y)) s) (free e4 (Some (data_of x))) = Some s'
      \<and> chain s' (remove1 y xs) \<and> free_b (heap s' x)
      \<and> size_b (heap s' x) = size_b (heap s x) + size_b (heap s y)
      \<and> (\<forall>z\<in>set xs. z \<noteq> x \<and> z \<noteq> y \<longrightarrow> view s' z = view s z)
      \<and> mapped s' = mapped s \<and> stderr s' = stderr s \<and> mem s' = mem s"
    if h: "chain s xs" "x \<in> set xs" "y \<in> set xs"
      "y = x + size_b (heap s x)" "region_id (heap s x) = region_id (heap s y)"
      "\<not> free_b (heap s x)" "\<not> free_b (heap s y)"
      "\<forall>z\<in>set xs. region_id (heap s z) = region_id (heap s x) \<and> free_b (heap s z)
                \<longrightarrow> z + size_b (heap s z) \<noteq> x \<and> y + size_b (heap s y) \<noteq> z"
      "\<exists>z\<in>set xs. z \<noteq> x \<and> z \<noteq> y \<and> region_id (heap s z) = region_id (heap s x)"
    for xs x y e1 e2 e3 e4
  proof -
    from chain_unique [OF h(1) ch0] wf have w: "wf s xs" by simp
    show ?thesis by (rule free_pair_addr [OF w h(2-9)])
  qed
  then have "\<forall>xs x y e1 e2 e3 e4.
          chain s xs \<and> x \<in> set xs \<and> y \<in> set xs
          \<and> y = x + size_b (heap s x) \<and> region_id (heap s x) = region_id (heap s y)
          \<and> \<not> free_b (heap s x) \<and> \<not> free_b (heap s y)
          \<and> (\<forall>z\<in>set xs. region_id (heap s z) = region_id (heap s x) \<and> free_b (heap s z)
                \<longrightarrow> z + size_b (heap s z) \<noteq> x \<and> y + size_b (heap s y) \<noteq> z)
          \<and> (\<exists>z\<in>set xs. z \<noteq> x \<and> z \<noteq> y \<and> region_id (heap s z) = region_id (heap s x))
          \<longrightarrow> (\<exists>s'. Option.bind (free e1 (Some (data_of x)) s) (free e2 (Some (data_of y)))
                       = Some s'
                \<and> Option.bind (free e3 (Some (data_of y)) s) (free e4 (Some (data_of x)))
                       = Some s'
                \<and> chain s' (remove1 y xs) \<and> free_b (heap s' x)
                \<and> size_b (heap s' x) = size_b (heap s x) + size_b (heap s y)
                \<and> (\<forall>z\<in>set xs. z \<noteq> x \<and> z \<noteq> y \<longrightarrow> view s' z = view s z)
                \<and> mapped s' = mapped s \<and> stderr s' = stderr s \<and> mem s' = mem s)"
    by blast
  with c(1) show ?thesis unfolding sl by blast
qed

theorem adjacent_releases_commute_witness:
  "run_ok False [Malloc (env None (Some 8192) True) 40, Malloc (env None None True) 40,
                 Malloc (env None None True) 40, Malloc (env None None True) 3564] (init, {})
   \<and> (\<exists>s live. run [Malloc (env None (Some 8192) True) 40, Malloc (env None None True) 40,
                     Malloc (env None None True) 40, Malloc (env None None True) 3564]
                  (init, {}) = Some (s, live)
        \<and> chain s [8192, 8336, 8480, 8624]
        \<and> 8480 = 8336 + size_b (heap s 8336)
        \<and> region_id (heap s 8336) = region_id (heap s 8480)
        \<and> \<not> free_b (heap s 8336) \<and> \<not> free_b (heap s 8480)
        \<and> (\<forall>z\<in>set [8192, 8336, 8480, 8624]. \<not> free_b (heap s z))
        \<and> region_id (heap s 8192) = region_id (heap s 8336)
        \<and> (\<exists>s'. Option.bind (free (env None None True) (Some (data_of 8336)) s)
                    (free (env None None True) (Some (data_of 8480))) = Some s'
              \<and> Option.bind (free (env None None True) (Some (data_of 8480)) s)
                    (free (env None None True) (Some (data_of 8336))) = Some s'
              \<and> chain s' [8192, 8336, 8624] \<and> free_b (heap s' 8336)
              \<and> size_b (heap s' 8336) = 288))"
proof -
  let ?ks = "[Malloc (env None (Some 8192) True) 40, Malloc (env None None True) 40,
              Malloc (env None None True) 40, Malloc (env None None True) 3564]"
  let ?e = "env None None True"
  have ok: "run_ok False ?ks (init, {})"
    by (simp add: run_defs ok_defs)
  from adjacent_releases_commute [OF ok] obtain s live where
    w: "run ?ks (init, {}) = Some (s, live)"
    "\<forall>xs x y e1 e2 e3 e4.
          chain s xs \<and> x \<in> set xs \<and> y \<in> set xs
          \<and> y = x + size_b (heap s x) \<and> region_id (heap s x) = region_id (heap s y)
          \<and> \<not> free_b (heap s x) \<and> \<not> free_b (heap s y)
          \<and> (\<forall>z\<in>set xs. region_id (heap s z) = region_id (heap s x) \<and> free_b (heap s z)
                \<longrightarrow> z + size_b (heap s z) \<noteq> x \<and> y + size_b (heap s y) \<noteq> z)
          \<and> (\<exists>z\<in>set xs. z \<noteq> x \<and> z \<noteq> y \<and> region_id (heap s z) = region_id (heap s x))
          \<longrightarrow> (\<exists>s'. Option.bind (free e1 (Some (data_of x)) s) (free e2 (Some (data_of y)))
                       = Some s'
                \<and> Option.bind (free e3 (Some (data_of y)) s) (free e4 (Some (data_of x)))
                       = Some s'
                \<and> chain s' (remove1 y xs) \<and> free_b (heap s' x)
                \<and> size_b (heap s' x) = size_b (heap s x) + size_b (heap s y)
                \<and> (\<forall>z\<in>set xs. z \<noteq> x \<and> z \<noteq> y \<longrightarrow> view s' z = view s z)
                \<and> mapped s' = mapped s \<and> stderr s' = stderr s \<and> mem s' = mem s)"
    by blast
  from w(1) have f: "chain s [8192, 8336, 8480, 8624]"
    "8480 = 8336 + size_b (heap s 8336)"
    "region_id (heap s 8336) = region_id (heap s 8480)"
    "\<not> free_b (heap s 8336)" "\<not> free_b (heap s 8480)"
    "\<forall>z\<in>set [8192, 8336, 8480, 8624]. \<not> free_b (heap s z)"
    "region_id (heap s 8192) = region_id (heap s 8336)"
    "size_b (heap s 8480) = 144"
    by (auto simp add: run_defs ok_defs)
  have "\<exists>s'. Option.bind (free ?e (Some (data_of 8336)) s) (free ?e (Some (data_of 8480)))
                       = Some s'
                \<and> Option.bind (free ?e (Some (data_of 8480)) s) (free ?e (Some (data_of 8336)))
                       = Some s'
                \<and> chain s' (remove1 8480 [8192, 8336, 8480, 8624]) \<and> free_b (heap s' 8336)
                \<and> size_b (heap s' 8336) = size_b (heap s 8336) + size_b (heap s 8480)
                \<and> (\<forall>z\<in>set [8192, 8336, 8480, 8624]. z \<noteq> 8336 \<and> z \<noteq> 8480
                      \<longrightarrow> view s' z = view s z)
                \<and> mapped s' = mapped s \<and> stderr s' = stderr s \<and> mem s' = mem s"
  proof (rule w(2) [rule_format, of "[8192, 8336, 8480, 8624]" 8336 8480 ?e ?e ?e ?e])
    show "chain s [8192, 8336, 8480, 8624] \<and> 8336 \<in> set [8192, 8336, 8480, 8624]
      \<and> 8480 \<in> set [8192, 8336, 8480, 8624]
      \<and> 8480 = 8336 + size_b (heap s 8336)
      \<and> region_id (heap s 8336) = region_id (heap s 8480)
      \<and> \<not> free_b (heap s 8336) \<and> \<not> free_b (heap s 8480)
      \<and> (\<forall>z\<in>set [8192, 8336, 8480, 8624].
            region_id (heap s z) = region_id (heap s 8336) \<and> free_b (heap s z)
            \<longrightarrow> z + size_b (heap s z) \<noteq> 8336 \<and> 8480 + size_b (heap s 8480) \<noteq> z)
      \<and> (\<exists>z\<in>set [8192, 8336, 8480, 8624]. z \<noteq> 8336 \<and> z \<noteq> 8480
            \<and> region_id (heap s z) = region_id (heap s 8336))"
      using f by simp
  qed
  then obtain s' where
    "Option.bind (free ?e (Some (data_of 8336)) s) (free ?e (Some (data_of 8480))) = Some s'"
    "Option.bind (free ?e (Some (data_of 8480)) s) (free ?e (Some (data_of 8336))) = Some s'"
    "chain s' (remove1 8480 [8192, 8336, 8480, 8624])" "free_b (heap s' 8336)"
    "size_b (heap s' 8336) = size_b (heap s 8336) + size_b (heap s 8480)"
    by blast
  with f have "\<exists>s'. Option.bind (free ?e (Some (data_of 8336)) s)
                    (free ?e (Some (data_of 8480))) = Some s'
              \<and> Option.bind (free ?e (Some (data_of 8480)) s)
                    (free ?e (Some (data_of 8336))) = Some s'
              \<and> chain s' [8192, 8336, 8624] \<and> free_b (heap s' 8336)
              \<and> size_b (heap s' 8336) = 288"
    by (intro exI [of _ s']) simp
  with ok w(1) f show ?thesis by blast
qed

end
